theory Spec2Isabelle
  imports Complex_Main
begin

section \<open>Data model\<close>

text \<open>
  The dashboard component (\<^verbatim>\<open>src/unnamed/part_000\<close>, the paginated version of
  \<^verbatim>\<open>src/app/page.tsx\<close>) keeps signup snapshots as
  \<^verbatim>\<open>{ timestamp: string; count: number }\<close>. Every use of a timestamp goes through
  \<^verbatim>\<open>new Date(timestamp).getTime()\<close>, so the embedding identifies a timestamp with the
  instant it denotes, in milliseconds since the epoch (an \<open>int\<close>). A count is a
  \<open>real\<close>. The interpolator, the peak rate, the average rate and the resampler compute
  over exact reals; the completion estimate and the live updater, whose outcome depends on
  the rounding of doubles, on infinities and on \<^verbatim>\<open>NaN\<close>, compute over the numbers of
  JavaScript defined below.
\<close>

record DataPoint =
  timestamp :: int
  count :: real

text \<open>
  What JavaScript does where a total HOL function would hide it: reading a field of
  \<^verbatim>\<open>undefined\<close> (an array read out of range, a property of \<^verbatim>\<open>null\<close>) throws a
  \<^verbatim>\<open>TypeError\<close>; a division by zero yields \<^verbatim>\<open>Infinity\<close> or \<^verbatim>\<open>NaN\<close>, which no
  \<open>real\<close> represents, so the model reports it as a fault as well.
\<close>

datatype js_fault = TypeError | NonFinite

definition elem :: "'a list \<Rightarrow> int \<Rightarrow> js_fault + 'a" where
  "elem xs i = (if 0 \<le> i \<and> i < int (length xs) then Inr (xs ! nat i) else Inl TypeError)"

definition js_div :: "real \<Rightarrow> real \<Rightarrow> js_fault + real" where
  "js_div a b = (if b = 0 then Inl NonFinite else Inr (a / b))"

text \<open>
  \<^verbatim>\<open>Math.round\<close> rounds to the nearest integer, a tie towards plus infinity.
\<close>

definition js_round :: "real \<Rightarrow> int" where
  "js_round x = \<lfloor>x + 1 / 2\<rfloor>"

text \<open>
  A JavaScript \<^verbatim>\<open>number\<close> is an IEEE 754 binary64 value: \<^verbatim>\<open>NaN\<close>, an infinity, minus
  zero, or \<open>Num x\<close> with \<open>x\<close> the real a finite double denotes (\<open>Num 0\<close> is plus
  zero).
\<close>

datatype js_number = NaN | Num real | NegZero | PosInfinity | NegInfinity

text \<open>
  \<open>fl x\<close> is the double that an arithmetic operation with exact result \<open>x\<close> delivers:
  \<open>x\<close> rounded to the nearest double, a tie going to the even significand. \<open>binade x\<close>
  is the largest exponent \<open>e\<close> in the range of doubles with \<open>2^e \<le> |x|\<close>; a normal double
  is a multiple of \<open>2^(e - 52)\<close>, a subnormal one of \<open>2^(-1074)\<close>; a result that rounds to
  \<open>2^1024\<close> or more is an infinity, and one that rounds to zero keeps the sign of \<open>x\<close>.
\<close>

definition round_even :: "real \<Rightarrow> int" where
  "round_even y =
     (let f = \<lfloor>y\<rfloor>; d = y - of_int f in
      if d < 1 / 2 then f
      else if 1 / 2 < d then f + 1
      else if even f then f else f + 1)"

definition binade :: "real \<Rightarrow> int" where
  "binade x =
     (case find (\<lambda>e. 2 powi e \<le> \<bar>x\<bar>) (rev [-1074..1023]) of
        Some e \<Rightarrow> e
      | None \<Rightarrow> -1075)"

definition fl :: "real \<Rightarrow> js_number" where
  "fl x =
     (let u = 2 powi (max (binade x) (-1022) - 52);
          m = round_even (\<bar>x\<bar> / u);
          v = of_int m * u
      in if 2 ^ 1024 \<le> v then (if 0 < x then PosInfinity else NegInfinity)
         else if v = 0 then (if x < 0 then NegZero else Num 0)
         else Num (if x < 0 then - v else v))"

text \<open>
  The operations the source applies to numbers: the test \<^verbatim>\<open>x > 0\<close>; division and
  multiplication by a positive finite constant; the division of two numbers; \<^verbatim>\<open>Math.max\<close>;
  the addition of a finite number on the left; \<^verbatim>\<open>Math.ceil\<close>; and the time value of
  \<^verbatim>\<open>new Date(x)\<close>, which is \<^verbatim>\<open>NaN\<close> (an invalid date) unless \<open>x\<close> is finite and at
  most \<open>8.64e15\<close> in magnitude, and then \<open>x\<close> truncated towards zero.
\<close>

fun positive :: "js_number \<Rightarrow> bool" where
  "positive (Num x) = (0 < x)"
| "positive PosInfinity = True"
| "positive _ = False"

fun num_div :: "js_number \<Rightarrow> real \<Rightarrow> js_number" where
  "num_div (Num a) d = fl (a / d)"
| "num_div x d = x"

fun num_mul :: "js_number \<Rightarrow> real \<Rightarrow> js_number" where
  "num_mul (Num a) d = fl (a * d)"
| "num_mul x d = x"

fun num_quot :: "js_number \<Rightarrow> js_number \<Rightarrow> js_number" where
  "num_quot NaN y = NaN"
| "num_quot x NaN = NaN"
| "num_quot (Num a) (Num b) =
     (if b = 0 then (if a = 0 then NaN else if 0 < a then PosInfinity else NegInfinity)
      else if a = 0 then (if 0 < b then Num 0 else NegZero)
      else fl (a / b))"
| "num_quot (Num a) NegZero =
     (if a = 0 then NaN else if 0 < a then NegInfinity else PosInfinity)"
| "num_quot (Num a) PosInfinity = (if a < 0 then NegZero else Num 0)"
| "num_quot (Num a) NegInfinity = (if a < 0 then Num 0 else NegZero)"
| "num_quot NegZero (Num b) = (if b = 0 then NaN else if 0 < b then NegZero else Num 0)"
| "num_quot NegZero NegZero = NaN"
| "num_quot NegZero PosInfinity = NegZero"
| "num_quot NegZero NegInfinity = Num 0"
| "num_quot PosInfinity (Num b) = (if 0 \<le> b then PosInfinity else NegInfinity)"
| "num_quot PosInfinity NegZero = NegInfinity"
| "num_quot PosInfinity PosInfinity = NaN"
| "num_quot PosInfinity NegInfinity = NaN"
| "num_quot NegInfinity (Num b) = (if 0 \<le> b then NegInfinity else PosInfinity)"
| "num_quot NegInfinity NegZero = PosInfinity"
| "num_quot NegInfinity PosInfinity = NaN"
| "num_quot NegInfinity NegInfinity = NaN"

fun num_max :: "js_number \<Rightarrow> js_number \<Rightarrow> js_number" where
  "num_max NaN y = NaN"
| "num_max x NaN = NaN"
| "num_max PosInfinity y = PosInfinity"
| "num_max x PosInfinity = PosInfinity"
| "num_max NegInfinity y = y"
| "num_max x NegInfinity = x"
| "num_max (Num a) (Num b) = Num (max a b)"
| "num_max (Num a) NegZero = (if a < 0 then NegZero else Num a)"
| "num_max NegZero (Num b) = (if b < 0 then NegZero else Num b)"
| "num_max NegZero NegZero = NegZero"

fun num_add :: "real \<Rightarrow> js_number \<Rightarrow> js_number" where
  "num_add t (Num a) = fl (t + a)"
| "num_add t NegZero = fl t"
| "num_add t x = x"

fun js_ceil :: "js_number \<Rightarrow> js_number" where
  "js_ceil (Num a) = (if - 1 < a \<and> a < 0 then NegZero else Num (of_int \<lceil>a\<rceil>))"
| "js_ceil x = x"

fun js_Date :: "js_number \<Rightarrow> js_number" where
  "js_Date (Num a) =
     (if \<bar>a\<bar> \<le> 864 * 10 ^ 13 then Num (of_int (if 0 \<le> a then \<lfloor>a\<rfloor> else \<lceil>a\<rceil>)) else NaN)"
| "js_Date NegZero = Num 0"
| "js_Date x = NaN"

text \<open>
  The time units of \<^verbatim>\<open>resampleTimeSeries\<close> (lines 336-338), in milliseconds.
\<close>

definition minute :: int where "minute = 60 * 1000"
definition hour :: int where "hour = 60 * minute"
definition day :: int where "day = 24 * hour"

section \<open>Ingestion and paging\<close>

text \<open>
  A row of the \<^verbatim>\<open>signups\<close> table as a page query returns it. The \<^verbatim>\<open>count\<close> column may
  be \<^verbatim>\<open>null\<close>; line 74 stores \<^verbatim>\<open>Number(r.count ?? 0)\<close>.
\<close>

record db_row =
  row_id :: int
  row_timestamp :: int
  row_count :: "real option"

definition PAGE_SIZE :: nat where
  "PAGE_SIZE = 1000"

definition toRow :: "db_row \<Rightarrow> DataPoint" where
  "toRow r = \<lparr>timestamp = row_timestamp r,
              count = (case row_count r of None \<Rightarrow> 0 | Some c \<Rightarrow> c)\<rparr>"

text \<open>
  The two \<^verbatim>\<open>while (true)\<close> loops of \<^verbatim>\<open>fetchData\<close> (lines 57-104) differ only in the
  key column (\<^verbatim>\<open>id\<close> or \<^verbatim>\<open>timestamp\<close>), so one function, with the key as a parameter,
  models both. \<open>query lastKey\<close> is the awaited answer to the page request whose exclusive
  lower bound is \<open>lastKey\<close>: \<open>None\<close> when \<^verbatim>\<open>batchError\<close> is set, otherwise the batch
  (a \<^verbatim>\<open>null\<close> batch and an empty one both leave the loop). \<open>safety\<close> is the page counter
  of the source; since it grows with every page and the loop stops once it exceeds 100,
  the loop terminates whatever the backend answers. The last component of the result
  counts the page requests issued; it is bookkeeping of the model, not program state.
\<close>

function keysetLoop ::
  "(db_row \<Rightarrow> 'k) \<Rightarrow> ('k option \<Rightarrow> db_row list option) \<Rightarrow> 'k option \<Rightarrow> nat \<Rightarrow>
     DataPoint list \<Rightarrow> nat \<Rightarrow> DataPoint list \<times> nat" where
  "keysetLoop key query lastKey safety allRows requests =
     (case query lastKey of
        None \<Rightarrow> (allRows, requests + 1)
      | Some batch \<Rightarrow>
          if batch = [] then (allRows, requests + 1)
          else
            (let allRows' = allRows @ map toRow batch;
                 lastKey' = Some (key (batch ! (length batch - 1)));
                 safety' = safety + 1
             in if safety' > 100 then (allRows', requests + 1)
                else keysetLoop key query lastKey' safety' allRows' (requests + 1)))"
  by pat_completeness auto
termination
  by (relation "measure (\<lambda>(key, query, lastKey, safety, allRows, requests). 101 - safety)") auto

declare keysetLoop.simps [simp del]

text \<open>
  Modelled from the spec: the backing store is an external service, not code of this
  repository. Its read query (section 6 of the specification) answers
  \<^verbatim>\<open>SELECT ... ORDER BY key ASC LIMIT pageSize [WHERE key > lastKey]\<close>, never failing.
\<close>

definition selectPage ::
  "(db_row \<Rightarrow> 'k::linorder) \<Rightarrow> db_row list \<Rightarrow> 'k option \<Rightarrow> db_row list option" where
  "selectPage key table lastKey =
     Some (take PAGE_SIZE
            (sort_key key (filter (\<lambda>r. case lastKey of None \<Rightarrow> True | Some k \<Rightarrow> k < key r) table)))"

text \<open>
  \<open>hasId\<close> is the outcome of the probe \<^verbatim>\<open>select('id').limit(1)\<close> (lines 54-55).
\<close>

definition fetchAllRows :: "bool \<Rightarrow> db_row list \<Rightarrow> DataPoint list \<times> nat" where
  "fetchAllRows hasId table =
     (if hasId then keysetLoop row_id (selectPage row_id table) None 0 [] 0
      else keysetLoop row_timestamp (selectPage row_timestamp table) None 0 [] 0)"

text \<open>
  Hourly downsampling (lines 113-121). \<^verbatim>\<open>d.setMinutes(0, 0, 0)\<close> clears minutes, seconds
  and milliseconds of the local time of the host; which instant that is depends on the time
  zone and its daylight-saving rules, so the truncation is a parameter \<open>toHour\<close> of the
  model, and \<open>utcHour\<close> is what it is on a host whose local time is UTC. \<^verbatim>\<open>hourlyMap\<close>
  is a JavaScript \<^verbatim>\<open>Map\<close>: an association list in insertion order, where \<^verbatim>\<open>set\<close>
  overwrites the entry of a key already present and appends a new key. \<^verbatim>\<open>sort\<close> with
  the comparator \<^verbatim>\<open>a[0] - b[0]\<close> is a stable sort by key.
\<close>

definition utcHour :: "int \<Rightarrow> int" where
  "utcHour t = (t div hour) * hour"

fun map_set :: "('k \<times> 'v) list \<Rightarrow> 'k \<Rightarrow> 'v \<Rightarrow> ('k \<times> 'v) list" where
  "map_set [] k v = [(k, v)]"
| "map_set ((k', v') # m) k v = (if k' = k then (k, v) # m else (k', v') # map_set m k v)"

fun hourlyMap ::
  "(int \<Rightarrow> int) \<Rightarrow> (int \<times> real) list \<Rightarrow> DataPoint list \<Rightarrow> (int \<times> real) list" where
  "hourlyMap toHour m [] = m"
| "hourlyMap toHour m (row # rows) =
     hourlyMap toHour (map_set m (toHour (timestamp row)) (count row)) rows"

definition hourlyData :: "(int \<Rightarrow> int) \<Rightarrow> DataPoint list \<Rightarrow> DataPoint list" where
  "hourlyData toHour allRows =
     map (\<lambda>(ts, c). \<lparr>timestamp = ts, count = c\<rparr>)
       (sort_key fst (hourlyMap toHour [] allRows))"

section \<open>Interpolator\<close>

text \<open>
  \<^verbatim>\<open>interpCount\<close> (lines 170-190) reads the array \<^verbatim>\<open>points\<close> of \<^verbatim>\<open>{ts, count}\<close> built from
  the raw rows by \<^verbatim>\<open>new Date(p.timestamp).getTime()\<close> and \<^verbatim>\<open>Number(p.count)\<close>; under the
  identification above that array is the row list itself.

  The \<^verbatim>\<open>while (lo <= hi)\<close> loop either returns from the function (an exact hit) or
  falls through with the final \<^verbatim>\<open>lo\<close>. \<open>lo\<close> and \<open>hi\<close> are integers, since
  \<^verbatim>\<open>hi = mid - 1\<close> may reach -1. \<open>elem\<close> is the array read, \<open>fraction\<close> the local
  \<^verbatim>\<open>frac\<close>.
\<close>

datatype search = Return real | Exit int

function bsearch :: "DataPoint list \<Rightarrow> int \<Rightarrow> int \<Rightarrow> int \<Rightarrow> js_fault + search" where
  "bsearch points t lo hi =
     (if lo \<le> hi then
        (let mid = (lo + hi) div 2 in
         case elem points mid of
           Inl e \<Rightarrow> Inl e
         | Inr p \<Rightarrow>
             if timestamp p = t then Inr (Return (count p))
             else if timestamp p < t then bsearch points t (mid + 1) hi
             else bsearch points t lo (mid - 1))
      else Inr (Exit lo))"
  by pat_completeness auto
termination
  by (relation "measure (\<lambda>(points, t, lo, hi). nat (hi - lo + 1))") auto

declare bsearch.simps [simp del]

definition interpCount :: "DataPoint list \<Rightarrow> int \<Rightarrow> js_fault + real" where
  "interpCount points t =
     (case elem points 0 of
        Inl e \<Rightarrow> Inl e
      | Inr p0 \<Rightarrow>
          if t \<le> timestamp p0 then Inr (count p0)
          else
            (case elem points (int (length points) - 1) of
               Inl e \<Rightarrow> Inl e
             | Inr pn \<Rightarrow>
                 if t \<ge> timestamp pn then Inr (count pn)
                 else
                   (case bsearch points t 0 (int (length points) - 1) of
                      Inl e \<Rightarrow> Inl e
                    | Inr (Return c) \<Rightarrow> Inr c
                    | Inr (Exit lo) \<Rightarrow>
                        (let right = lo; left = right - 1 in
                         case elem points left of
                           Inl e \<Rightarrow> Inl e
                         | Inr pL \<Rightarrow>
                             (case elem points right of
                                Inl e \<Rightarrow> Inl e
                              | Inr pR \<Rightarrow>
                                  (case js_div (real_of_int (t - timestamp pL))
                                               (real_of_int (timestamp pR - timestamp pL)) of
                                     Inl e \<Rightarrow> Inl e
                                   | Inr fraction \<Rightarrow>
                                       Inr (count pL + (count pR - count pL) * fraction)))))))"

section \<open>Peak-rate estimator\<close>

text \<open>
  The \<^verbatim>\<open>for\<close> loop of \<^verbatim>\<open>peakHourly\<close> (lines 196-204) visits \<^verbatim>\<open>points[i].ts\<close> for every
  index in turn and carries \<^verbatim>\<open>maxPerHour\<close>; the recursion below runs over the points
  still to visit.
\<close>

definition oneHourMs :: int where
  "oneHourMs = 60 * 60 * 1000"

fun peakLoop :: "DataPoint list \<Rightarrow> DataPoint list \<Rightarrow> real \<Rightarrow> js_fault + real" where
  "peakLoop points [] maxPerHour = Inr maxPerHour"
| "peakLoop points (p # rest) maxPerHour =
     (let t = timestamp p; t0 = t - oneHourMs in
      case interpCount points t of
        Inl e \<Rightarrow> Inl e
      | Inr cT \<Rightarrow>
          (case interpCount points t0 of
             Inl e \<Rightarrow> Inl e
           | Inr cT0 \<Rightarrow>
               (let delta = cT - cT0; perHour = delta in
                peakLoop points rest (if perHour > maxPerHour then perHour else maxPerHour))))"

definition peakHourly :: "DataPoint list \<Rightarrow> js_fault + real" where
  "peakHourly points =
     (if length points < 2 then Inr 0
      else case peakLoop points points 0 of
             Inl e \<Rightarrow> Inl e
           | Inr maxPerHour \<Rightarrow> Inr (max 0 maxPerHour))"

section \<open>Trend calculator\<close>

text \<open>
  The statistics block of \<^verbatim>\<open>fetchData\<close> (lines 150-234), run when at least two raw rows
  exist. \<open>now\<close> is \<^verbatim>\<open>new Date().getTime()\<close> at line 136. \<open>avgPerHour\<close> is the average
  rate of lines 152-155 over exact reals, the value reported in the field
  \<^verbatim>\<open>averagePerHour\<close>; \<open>avgPerHourNumber\<close> is the same computation in doubles, the value
  that the completion estimate (lines 216-225) tests and divides by. \<open>estimatedCompletion\<close>
  is \<open>None\<close> for \<^verbatim>\<open>null\<close>, else the time value of the \<^verbatim>\<open>Date\<close>.
\<close>

record Stats =
  totalSignups :: real
  averagePerHour :: real
  peakSignupsPerHour :: real
  estimatedCompletion :: "js_number option"
  daysRemaining :: js_number
  lastDayGrowth :: real

definition TARGET_SIGNUPS :: real where
  "TARGET_SIGNUPS = 5000"

definition avgPerHour :: "DataPoint \<Rightarrow> DataPoint \<Rightarrow> real" where
  "avgPerHour first latest =
     (let timeDiff = timestamp latest - timestamp first;
          hoursDiff = real_of_int timeDiff / (1000 * 60 * 60);
          signupDiff = count latest - count first
      in signupDiff / max hoursDiff (1 / 10 ^ 6))"

definition avgPerHourNumber :: "DataPoint \<Rightarrow> DataPoint \<Rightarrow> js_number" where
  "avgPerHourNumber first latest =
     (let timeDiff = fl (real_of_int (timestamp latest - timestamp first));
          hoursDiff = num_div timeDiff (1000 * 60 * 60);
          signupDiff = fl (count latest - count first)
      in num_quot signupDiff (num_max hoursDiff (fl (1 / 10 ^ 6))))"

definition lastDayGrowth_of :: "int \<Rightarrow> DataPoint list \<Rightarrow> real" where
  "lastDayGrowth_of now allRows =
     (let oneDayAgo = now - 24 * 60 * 60 * 1000;
          recentData = filter (\<lambda>d. timestamp d \<ge> oneDayAgo) allRows
      in if length recentData > 1
         then count (recentData ! (length recentData - 1)) - count (recentData ! 0)
         else 0)"

definition estimate :: "int \<Rightarrow> js_number \<Rightarrow> real \<Rightarrow> js_number option \<times> js_number" where
  "estimate now avg latestCount =
     (let remaining = fl (TARGET_SIGNUPS - latestCount) in
      if positive avg \<and> positive remaining then
        (let hoursRemaining = num_quot remaining avg;
             daysRemaining = js_ceil (num_div hoursRemaining 24);
             estimatedCompletion =
               js_Date (num_add (real_of_int now)
                          (num_mul (num_mul (num_mul hoursRemaining 60) 60) 1000))
         in (Some estimatedCompletion, daysRemaining))
      else (None, Num 0))"

definition computeStats :: "int \<Rightarrow> DataPoint list \<Rightarrow> js_fault + Stats option" where
  "computeStats now allRows =
     (if length allRows > 1 then
        (let latest = allRows ! (length allRows - 1);
             first = allRows ! 0;
             avg = avgPerHour first latest
         in case peakHourly allRows of
              Inl e \<Rightarrow> Inl e
            | Inr peak \<Rightarrow>
                (let (completion, days) =
                       estimate now (avgPerHourNumber first latest) (count latest) in
                 Inr (Some \<lparr>totalSignups = count latest,
                            averagePerHour = avg,
                            peakSignupsPerHour = max 0 peak,
                            estimatedCompletion = completion,
                            daysRemaining = days,
                            lastDayGrowth = lastDayGrowth_of now allRows\<rparr>)))
      else Inr None)"

section \<open>Resampler\<close>

text \<open>
  The choice of the bucket width (lines 345-376), as a function of the span of the series
  (\<^verbatim>\<open>span\<close> in the source; \<open>bucket\<close> is the intermediate value that the source
  stores in \<^verbatim>\<open>bucketMs\<close> before rounding).
\<close>

definition TARGET_POINTS :: int where "TARGET_POINTS = 240"

definition bucketMs :: "int \<Rightarrow> int" where
  "bucketMs spanMs =
     (if spanMs \<le> hour then minute
      else if spanMs \<le> day then 10 * minute
      else if spanMs \<le> 7 * day then hour
      else
        (let approx = \<lceil>real_of_int spanMs / real_of_int TARGET_POINTS\<rceil>;
             bucket = max approx hour;
             approxHours = js_round (real_of_int bucket / real_of_int hour)
         in if approxHours \<le> 24 then approxHours * hour
            else (let approxDays = max 1 (js_round (real_of_int approxHours / 24))
                  in approxDays * day)))"

text \<open>
  A resampled point \<^verbatim>\<open>{ timestamp: string; count: number | null }\<close>.
\<close>

record Bucket =
  btimestamp :: int
  bcount :: "real option"

text \<open>
  The inner \<^verbatim>\<open>while\<close> loop (line 386) moves the pointer \<^verbatim>\<open>j\<close> past the points before
  the bucket.
\<close>

function advance :: "DataPoint list \<Rightarrow> int \<Rightarrow> nat \<Rightarrow> nat" where
  "advance points bucketStart j =
     (if j < length points \<and> timestamp (points ! j) < bucketStart
      then advance points bucketStart (j + 1) else j)"
  by pat_completeness auto
termination
  by (relation "measure (\<lambda>(points, bucketStart, j). length points - j)") auto

declare advance.simps [simp del]

text \<open>
  The \<^verbatim>\<open>for (let t = firstTs; t <= lastTs; t += bucketMs)\<close> loop (lines 381-400), with
  the array \<^verbatim>\<open>resampled\<close> as an accumulator. The loop ends only because the width is
  positive, which the loop itself does not check: its model is a partial function, and
  that it returns is proved below. Each bucket is paired with the index of the point it
  consumed, if any; this second component records what the loop did and is dropped from
  the list that \<^verbatim>\<open>resampleTimeSeries\<close> returns.
\<close>

partial_function (option) resampleLoop ::
  "DataPoint list \<Rightarrow> int \<Rightarrow> int \<Rightarrow> int \<Rightarrow> nat \<Rightarrow> (Bucket \<times> nat option) list
     \<Rightarrow> (Bucket \<times> nat option) list option" where
  "resampleLoop points lastTs width t j resampled =
     (if t \<le> lastTs then
        (let bucketStart = t;
             bucketEnd = t + width;
             j1 = advance points bucketStart j
         in if j1 < length points \<and> timestamp (points ! j1) \<ge> bucketStart
                 \<and> timestamp (points ! j1) < bucketEnd
            then resampleLoop points lastTs width (t + width) (j1 + 1)
                   (resampled @ [(\<lparr>btimestamp = bucketStart,
                                    bcount = Some (count (points ! j1))\<rparr>, Some j1)])
            else resampleLoop points lastTs width (t + width) j1
                   (resampled @ [(\<lparr>btimestamp = bucketStart, bcount = None\<rparr>, None)]))
      else Some resampled)"

declare resampleLoop.simps [code]

definition resampleTrace :: "DataPoint list \<Rightarrow> (Bucket \<times> nat option) list option" where
  "resampleTrace points =
     (if points = [] then Some []
      else
        (let firstTs = timestamp (points ! 0);
             lastTs = timestamp (points ! (length points - 1));
             spanMs = lastTs - firstTs
         in resampleLoop points lastTs (bucketMs spanMs) firstTs 0 []))"

definition resampleTimeSeries :: "DataPoint list \<Rightarrow> Bucket list option" where
  "resampleTimeSeries points = map_option (map fst) (resampleTrace points)"

section \<open>Live updater\<close>

text \<open>
  The realtime handler (lines 259-273) receives a payload decoded from a JSON message: a
  JSON scalar, array or object; \<^verbatim>\<open>undefined\<close> is what reading an absent property yields.
  A string is the list of its UTF-16 code units; \<open>str\<close> writes one of ASCII characters.
  An object is the list of its own properties.
\<close>

type_synonym js_string = "nat list"

definition str :: "string \<Rightarrow> js_string" where
  "str s = map of_char s"

datatype js_value =
    JUndefined
  | JNull
  | JBoolean bool
  | JNumber js_number
  | JString js_string
  | JArray "js_value list"
  | JObject "(string \<times> js_value) list"

text \<open>
  \<^verbatim>\<open>Number(x)\<close> on a string follows the grammar of string numeric literals
  (\<^verbatim>\<open>StringToNumber\<close> of ECMA-262): surrounding white space and line terminators are
  dropped (the characters of \<^verbatim>\<open>WhiteSpace\<close> and \<^verbatim>\<open>LineTerminator\<close>: tab, line feed,
  vertical tab, form feed, carriage return, space, U+00A0, U+1680, U+2000 to U+200A,
  U+2028, U+2029, U+202F, U+205F, U+3000 and U+FEFF), the empty string is 0, then come the
  prefixed binary, octal and hexadecimal integers, and the signed decimal literals with
  optional fraction and exponent, or \<^verbatim>\<open>Infinity\<close>. Anything else is \<^verbatim>\<open>NaN\<close>. The result
  is the double nearest to the real the literal denotes (\<open>fl\<close>), an infinity when that
  real is out of range, and minus zero for a negated zero. (ECMA-262 also lets an engine
  cut a decimal literal of more than 20 significant digits at the twentieth; the engines
  in use round the exact value, as here.)
\<close>

definition isStrWhiteSpaceChar :: "nat \<Rightarrow> bool" where
  "isStrWhiteSpaceChar c =
     (c = 0x09 \<or> c = 0x0A \<or> c = 0x0B \<or> c = 0x0C \<or> c = 0x0D \<or> c = 0x20 \<or> c = 0xA0 \<or>
      c = 0x1680 \<or> (0x2000 \<le> c \<and> c \<le> 0x200A) \<or> c = 0x2028 \<or> c = 0x2029 \<or>
      c = 0x202F \<or> c = 0x205F \<or> c = 0x3000 \<or> c = 0xFEFF)"

definition trimString :: "js_string \<Rightarrow> js_string" where
  "trimString s = rev (dropWhile isStrWhiteSpaceChar (rev (dropWhile isStrWhiteSpaceChar s)))"

definition digitValue :: "nat \<Rightarrow> nat option" where
  "digitValue c =
     (if 0x30 \<le> c \<and> c \<le> 0x39 then Some (c - 0x30)
      else if 0x61 \<le> c \<and> c \<le> 0x66 then Some (c - 0x61 + 10)
      else if 0x41 \<le> c \<and> c \<le> 0x46 then Some (c - 0x41 + 10)
      else None)"

fun digitsValue :: "nat \<Rightarrow> int \<Rightarrow> js_string \<Rightarrow> int option" where
  "digitsValue base acc [] = Some acc"
| "digitsValue base acc (c # cs) =
     (case digitValue c of
        None \<Rightarrow> None
      | Some d \<Rightarrow> if d < base then digitsValue base (acc * int base + int d) cs else None)"

definition parseDigits :: "nat \<Rightarrow> js_string \<Rightarrow> int option" where
  "parseDigits base s = (if s = [] then None else digitsValue base 0 s)"

definition parseExponent :: "js_string \<Rightarrow> int option" where
  "parseExponent s =
     (case s of
        [] \<Rightarrow> None
      | c # cs \<Rightarrow>
          if c = of_char CHR ''+'' then parseDigits 10 cs
          else if c = of_char CHR ''-'' then map_option uminus (parseDigits 10 cs)
          else parseDigits 10 s)"

definition parseMantissa :: "js_string \<Rightarrow> real option" where
  "parseMantissa s =
     (let intPart = takeWhile (\<lambda>c. c \<noteq> of_char CHR ''.'') s;
          rest = dropWhile (\<lambda>c. c \<noteq> of_char CHR ''.'') s
      in if rest = [] then map_option real_of_int (parseDigits 10 intPart)
         else
           (let fracPart = tl rest in
            if intPart = []
            then map_option (\<lambda>n. real_of_int n / 10 ^ length fracPart) (parseDigits 10 fracPart)
            else
              (case parseDigits 10 intPart of
                 None \<Rightarrow> None
               | Some i \<Rightarrow>
                   if fracPart = [] then Some (real_of_int i)
                   else map_option (\<lambda>n. real_of_int i + real_of_int n / 10 ^ length fracPart)
                          (parseDigits 10 fracPart))))"

definition strUnsignedDecimalLiteral :: "js_string \<Rightarrow> js_number option" where
  "strUnsignedDecimalLiteral s =
     (if s = str ''Infinity'' then Some PosInfinity
      else
        (let mantissa = takeWhile (\<lambda>c. c \<noteq> of_char CHR ''e'' \<and> c \<noteq> of_char CHR ''E'') s;
             rest = dropWhile (\<lambda>c. c \<noteq> of_char CHR ''e'' \<and> c \<noteq> of_char CHR ''E'') s
         in case parseMantissa mantissa of
              None \<Rightarrow> None
            | Some m \<Rightarrow>
                if rest = [] then Some (fl m)
                else
                  (case parseExponent (tl rest) of
                     None \<Rightarrow> None
                   | Some e \<Rightarrow>
                       Some (fl (if 0 \<le> e then m * 10 ^ nat e else m / 10 ^ nat (- e))))))"

fun negate :: "js_number \<Rightarrow> js_number" where
  "negate NaN = NaN"
| "negate (Num x) = (if x = 0 then NegZero else Num (- x))"
| "negate NegZero = Num 0"
| "negate PosInfinity = NegInfinity"
| "negate NegInfinity = PosInfinity"

definition strDecimalLiteral :: "js_string \<Rightarrow> js_number option" where
  "strDecimalLiteral s =
     (case s of
        [] \<Rightarrow> None
      | c # cs \<Rightarrow>
          if c = of_char CHR ''+'' then strUnsignedDecimalLiteral cs
          else if c = of_char CHR ''-'' then map_option negate (strUnsignedDecimalLiteral cs)
          else strUnsignedDecimalLiteral s)"

definition strNumericLiteral :: "js_string \<Rightarrow> js_number option" where
  "strNumericLiteral s =
     (case s of
        c1 # c2 # digits \<Rightarrow>
          if c1 = of_char CHR ''0'' \<and> (c2 = of_char CHR ''x'' \<or> c2 = of_char CHR ''X'')
          then map_option (\<lambda>n. fl (real_of_int n)) (parseDigits 16 digits)
          else if c1 = of_char CHR ''0'' \<and> (c2 = of_char CHR ''o'' \<or> c2 = of_char CHR ''O'')
          then map_option (\<lambda>n. fl (real_of_int n)) (parseDigits 8 digits)
          else if c1 = of_char CHR ''0'' \<and> (c2 = of_char CHR ''b'' \<or> c2 = of_char CHR ''B'')
          then map_option (\<lambda>n. fl (real_of_int n)) (parseDigits 2 digits)
          else strDecimalLiteral s
      | _ \<Rightarrow> strDecimalLiteral s)"

definition stringToNumber :: "js_string \<Rightarrow> js_number" where
  "stringToNumber s =
     (let trimmed = trimString s in
      if trimmed = [] then Num 0
      else case strNumericLiteral trimmed of None \<Rightarrow> NaN | Some n \<Rightarrow> n)"

text \<open>
  \<^verbatim>\<open>Number\<close> on the other values. An object converts through \<^verbatim>\<open>valueOf\<close> and
  \<^verbatim>\<open>toString\<close>: a plain object gives \<^verbatim>\<open>"[object Object]"\<close> and so \<^verbatim>\<open>NaN\<close>, unless it
  has an own property \<^verbatim>\<open>toString\<close>, which in a JSON value is not callable, and then the
  conversion throws a \<^verbatim>\<open>TypeError\<close>. An array converts through \<^verbatim>\<open>join\<close>: the empty
  array gives the empty string and so 0; an array of one element gives the string of that
  element (empty for \<^verbatim>\<open>undefined\<close> and \<^verbatim>\<open>null\<close>), whose conversion back is the number
  itself for a number (plus zero for minus zero), \<^verbatim>\<open>NaN\<close> for a boolean; an array of two
  or more gives a string with a comma and so \<^verbatim>\<open>NaN\<close>; in each case the conversion throws
  if the string of an element does.

  Then \<^verbatim>\<open>isNaN\<close>, truthiness (for \<^verbatim>\<open>!rec\<close>), the operator \<^verbatim>\<open>??\<close>, and property reads:
  on \<^verbatim>\<open>undefined\<close> and \<^verbatim>\<open>null\<close> a read throws; on a boolean, number, string or array
  the properties \<^verbatim>\<open>new\<close>, \<^verbatim>\<open>old\<close> and \<^verbatim>\<open>count\<close> do not exist.
\<close>

fun throwsToString :: "js_value \<Rightarrow> bool" where
  "throwsToString (JObject props) = (''toString'' \<in> set (map fst props))"
| "throwsToString (JArray xs) = list_ex throwsToString xs"
| "throwsToString v = False"

fun toNumber :: "js_value \<Rightarrow> js_fault + js_number" where
  "toNumber JUndefined = Inr NaN"
| "toNumber JNull = Inr (Num 0)"
| "toNumber (JBoolean b) = Inr (Num (if b then 1 else 0))"
| "toNumber (JNumber n) = Inr n"
| "toNumber (JString s) = Inr (stringToNumber s)"
| "toNumber (JObject props) = (if throwsToString (JObject props) then Inl TypeError else Inr NaN)"
| "toNumber (JArray []) = Inr (Num 0)"
| "toNumber (JArray [x]) =
     (case x of
        JUndefined \<Rightarrow> Inr (Num 0)
      | JNull \<Rightarrow> Inr (Num 0)
      | JBoolean b \<Rightarrow> Inr NaN
      | JNumber n \<Rightarrow> Inr (if n = NegZero then Num 0 else n)
      | JString s \<Rightarrow> Inr (stringToNumber s)
      | JObject props \<Rightarrow> toNumber x
      | JArray ys \<Rightarrow> toNumber x)"
| "toNumber (JArray (x # y # zs)) =
     (if throwsToString (JArray (x # y # zs)) then Inl TypeError else Inr NaN)"

definition isNaN :: "js_number \<Rightarrow> bool" where
  "isNaN n = (n = NaN)"

fun truthy :: "js_value \<Rightarrow> bool" where
  "truthy JUndefined = False"
| "truthy JNull = False"
| "truthy (JBoolean b) = b"
| "truthy (JNumber n) = (n \<noteq> NaN \<and> n \<noteq> Num 0 \<and> n \<noteq> NegZero)"
| "truthy (JString s) = (s \<noteq> [])"
| "truthy (JArray xs) = True"
| "truthy (JObject props) = True"

fun getProp :: "js_value \<Rightarrow> string \<Rightarrow> js_fault + js_value" where
  "getProp JUndefined k = Inl TypeError"
| "getProp JNull k = Inl TypeError"
| "getProp (JObject props) k = (case map_of props k of None \<Rightarrow> Inr JUndefined | Some v \<Rightarrow> Inr v)"
| "getProp v k = Inr JUndefined"

definition nullish :: "js_value \<Rightarrow> bool" where
  "nullish v = (v = JUndefined \<or> v = JNull)"

text \<open>
  The React state of the component (lines 37-42). The handler is the body of the
  \<^verbatim>\<open>try\<close> block; \<^verbatim>\<open>catch\<close> swallows whatever it throws.
\<close>

datatype TimeRange = RangeAll | Range7d | Range24h | Range1h

record ViewState =
  data :: "DataPoint list"
  currentCount :: js_number
  lastUpdated :: string
  loading :: bool
  stats :: "Stats option"
  timeRange :: TimeRange

definition handlerBody :: "ViewState \<Rightarrow> js_value \<Rightarrow> js_fault + ViewState" where
  "handlerBody st payload =
     (case getProp payload ''new'' of
        Inl e \<Rightarrow> Inl e
      | Inr new \<Rightarrow>
          (case (if nullish new then getProp payload ''old'' else Inr new) of
             Inl e \<Rightarrow> Inl e
           | Inr rec \<Rightarrow>
               if \<not> truthy rec then Inr st
               else
                 (case getProp rec ''count'' of
                    Inl e \<Rightarrow> Inl e
                  | Inr raw \<Rightarrow>
                      (case toNumber raw of
                         Inl e \<Rightarrow> Inl e
                       | Inr newCount \<Rightarrow>
                           if \<not> isNaN newCount
                           then Inr (st\<lparr>currentCount := newCount,
                                          lastUpdated := ''< 1 min ago''\<rparr>)
                           else Inr st))))"

definition onPayload :: "ViewState \<Rightarrow> js_value \<Rightarrow> ViewState" where
  "onPayload st payload = (case handlerBody st payload of Inl e \<Rightarrow> st | Inr st' \<Rightarrow> st')"

section \<open>Definitions used in the statements and proofs\<close>

text \<open>
  The linear piece of the interpolation between the points \<open>k - 1\<close> and \<open>k\<close>.
\<close>

definition segment_value :: "DataPoint list \<Rightarrow> nat \<Rightarrow> int \<Rightarrow> real" where
  "segment_value points k t =
     count (points ! (k - 1)) + (count (points ! k) - count (points ! (k - 1))) *
       (real_of_int (t - timestamp (points ! (k - 1))) /
        real_of_int (timestamp (points ! k) - timestamp (points ! (k - 1))))"

text \<open>
  The bucket starts the resampling loop visits, and the loop body folded over a given
  list of starts.
\<close>

definition bucketsFrom :: "int \<Rightarrow> int \<Rightarrow> int \<Rightarrow> nat" where
  "bucketsFrom t lastTs width = (if t \<le> lastTs then nat ((lastTs - t) div width) + 1 else 0)"

definition starts :: "int \<Rightarrow> int \<Rightarrow> int \<Rightarrow> int list" where
  "starts t lastTs width = map (\<lambda>k. t + int k * width) [0..<bucketsFrom t lastTs width]"

fun walk :: "DataPoint list \<Rightarrow> int \<Rightarrow> int list \<Rightarrow> nat \<Rightarrow> (Bucket \<times> nat option) list" where
  "walk points width [] j = []"
| "walk points width (t # rest) j =
     (let j1 = advance points t j in
      if j1 < length points \<and> timestamp (points ! j1) \<ge> t \<and> timestamp (points ! j1) < t + width
      then (\<lparr>btimestamp = t, bcount = Some (count (points ! j1))\<rparr>, Some j1)
             # walk points width rest (j1 + 1)
      else (\<lparr>btimestamp = t, bcount = None\<rparr>, None) # walk points width rest j1)"

text \<open>
  The bucket width as the specification words it, for comparison with \<open>bucketMs\<close>: for a
  span above seven days, \<open>max(ceil(S / 240), 1 hour)\<close> rounded to the nearest whole hour
  if that is at most 24 hours, else rounded to the nearest whole day.
\<close>

definition spec_bucket_width :: "int \<Rightarrow> int" where
  "spec_bucket_width S =
     (if S \<le> hour then minute
      else if S \<le> day then 10 * minute
      else if S \<le> 7 * day then hour
      else
        (let b = max \<lceil>real_of_int S / 240\<rceil> hour;
             nearestHour = js_round (real_of_int b / real_of_int hour) * hour;
             nearestDay = js_round (real_of_int b / real_of_int day) * day
         in if nearestHour \<le> 24 * hour then nearestHour else nearestDay))"

text \<open>
  The keyset bound after the rows \<open>fetched\<close>, and the number of non-empty pages that
  \<open>n\<close> rows fill.
\<close>

definition lastKeyOf :: "(db_row \<Rightarrow> 'k) \<Rightarrow> db_row list \<Rightarrow> 'k option" where
  "lastKeyOf key fetched = (if fetched = [] then None else Some (key (last fetched)))"

definition pagesOf :: "nat \<Rightarrow> nat" where
  "pagesOf n = (n + (PAGE_SIZE - 1)) div PAGE_SIZE"

text \<open>
  Modelled from the spec: the live updater as the specification words it. The row of a
  push event is the new row if present, else the old row; its count is the \<^verbatim>\<open>count\<close>
  field coerced to a number (by the \<open>toNumber\<close> of the source model), absent when the
  payload carries no row object, no count, or a count that does not parse.
\<close>

definition spec_payloadRow :: "js_value \<Rightarrow> js_value option" where
  "spec_payloadRow payload =
     (case payload of
        JObject props \<Rightarrow>
          (case map_of props ''new'' of
             Some new \<Rightarrow> if nullish new then map_of props ''old'' else Some new
           | None \<Rightarrow> map_of props ''old'')
      | _ \<Rightarrow> None)"

definition spec_payloadCount :: "js_value \<Rightarrow> js_number option" where
  "spec_payloadCount payload =
     (case spec_payloadRow payload of
        Some (JObject row) \<Rightarrow>
          (case map_of row ''count'' of
             Some raw \<Rightarrow>
               (case toNumber raw of
                  Inr n \<Rightarrow> if n = NaN then None else Some n
                | Inl e \<Rightarrow> None)
           | None \<Rightarrow> None)
      | _ \<Rightarrow> None)"

text \<open>
  Concrete inputs: the three-sample scenario of the specification, and small series and
  tables for the instances below.
\<close>

definition scenario :: "int \<Rightarrow> DataPoint list" where
  "scenario t0 = [\<lparr>timestamp = t0, count = 0\<rparr>,
                  \<lparr>timestamp = t0 + 30 * 60 * 1000, count = 10\<rparr>,
                  \<lparr>timestamp = t0 + 90 * 60 * 1000, count = 40\<rparr>]"

definition twoPoints :: "DataPoint list" where
  "twoPoints = [\<lparr>timestamp = 0, count = 0\<rparr>, \<lparr>timestamp = 10, count = 10\<rparr>]"

definition threeRows :: "DataPoint list" where
  "threeRows = [\<lparr>timestamp = 0, count = 1\<rparr>, \<lparr>timestamp = 130000, count = 2\<rparr>,
                \<lparr>timestamp = 140000, count = 3\<rparr>]"

definition twoRowTable :: "db_row list" where
  "twoRowTable = [\<lparr>row_id = 2, row_timestamp = 60000, row_count = Some 8\<rparr>,
                  \<lparr>row_id = 1, row_timestamp = 0, row_count = Some 5\<rparr>]"

section \<open>Interpolator: the search brackets the query time\<close>

lemma bsearch_inv:
  "0 \<le> lo \<Longrightarrow> hi < int (length points) \<Longrightarrow> lo \<le> hi + 1 \<Longrightarrow>
   lo = 0 \<or> timestamp (points ! nat (lo - 1)) < t \<Longrightarrow>
   hi = int (length points) - 1 \<or> t < timestamp (points ! nat (hi + 1)) \<Longrightarrow>
   (\<exists>i < length points. timestamp (points ! i) = t \<and>
        bsearch points t lo hi = Inr (Return (count (points ! i)))) \<or>
   (\<exists>k. 0 \<le> k \<and> k \<le> int (length points) \<and>
        (k = 0 \<or> timestamp (points ! nat (k - 1)) < t) \<and>
        (k = int (length points) \<or> t < timestamp (points ! nat k)) \<and>
        bsearch points t lo hi = Inr (Exit k))"
proof (induction points t lo hi rule: bsearch.induct)
  case (1 points t lo hi)
  show ?case
  proof (cases "lo \<le> hi")
    case False
    with "1.prems" have "lo = hi + 1" by simp
    with False "1.prems" show ?thesis
      by (subst (1 2) bsearch.simps) auto
  next
    case True
    define mid where "mid = (lo + hi) div 2"
    have mid: "lo \<le> mid" "mid \<le> hi" using True by (auto simp: mid_def)
    then have inr: "0 \<le> mid" "mid < int (length points)" using "1.prems" by auto
    then have el: "elem points mid = Inr (points ! nat mid)" by (simp add: elem_def)
    consider (eq) "timestamp (points ! nat mid) = t" | (lt) "timestamp (points ! nat mid) < t"
      | (gt) "t < timestamp (points ! nat mid)" by linarith
    then show ?thesis
    proof cases
      case eq
      have "bsearch points t lo hi = Inr (Return (count (points ! nat mid)))"
        using True el eq by (subst bsearch.simps) (simp add: mid_def [symmetric])
      moreover have "nat mid < length points" using inr by simp
      ultimately show ?thesis using eq by blast
    next
      case lt
      have step: "bsearch points t lo hi = bsearch points t (mid + 1) hi"
        using True el lt by (subst bsearch.simps) (simp add: mid_def [symmetric])
      have "(\<exists>i < length points. timestamp (points ! i) = t \<and>
        bsearch points t (mid + 1) hi = Inr (Return (count (points ! i)))) \<or>
       (\<exists>k. 0 \<le> k \<and> k \<le> int (length points) \<and>
        (k = 0 \<or> timestamp (points ! nat (k - 1)) < t) \<and>
        (k = int (length points) \<or> t < timestamp (points ! nat k)) \<and>
        bsearch points t (mid + 1) hi = Inr (Exit k))"
        using "1.IH"(1) [OF True mid_def el] lt mid inr "1.prems" by simp
      then show ?thesis by (simp only: step)
    next
      case gt
      have step: "bsearch points t lo hi = bsearch points t lo (mid - 1)"
        using True el gt by (subst bsearch.simps) (simp add: mid_def [symmetric])
      have "(\<exists>i < length points. timestamp (points ! i) = t \<and>
        bsearch points t lo (mid - 1) = Inr (Return (count (points ! i)))) \<or>
       (\<exists>k. 0 \<le> k \<and> k \<le> int (length points) \<and>
        (k = 0 \<or> timestamp (points ! nat (k - 1)) < t) \<and>
        (k = int (length points) \<or> t < timestamp (points ! nat k)) \<and>
        bsearch points t lo (mid - 1) = Inr (Exit k))"
        using "1.IH"(2) [OF True mid_def el] gt mid inr "1.prems" by simp
      then show ?thesis by (simp only: step)
    qed
  qed
qed

lemma interpCount_cases:
  assumes "points \<noteq> []"
  shows "(t \<le> timestamp (points ! 0) \<and> interpCount points t = Inr (count (points ! 0))) \<or>
    (timestamp (points ! (length points - 1)) \<le> t \<and>
       interpCount points t = Inr (count (points ! (length points - 1)))) \<or>
    (\<exists>i < length points. timestamp (points ! i) = t \<and>
       interpCount points t = Inr (count (points ! i))) \<or>
    (\<exists>k. 0 < k \<and> k < length points \<and>
       timestamp (points ! (k - 1)) < t \<and> t < timestamp (points ! k) \<and>
       interpCount points t =
         Inr (count (points ! (k - 1)) + (count (points ! k) - count (points ! (k - 1))) *
              (real_of_int (t - timestamp (points ! (k - 1))) /
               real_of_int (timestamp (points ! k) - timestamp (points ! (k - 1))))))"
proof -
  let ?n = "length points"
  have n: "0 < ?n" using assms by simp
  have e0: "elem points 0 = Inr (points ! 0)" using n by (simp add: elem_def)
  have en: "elem points (int ?n - 1) = Inr (points ! (?n - 1))"
    using n by (simp add: elem_def nat_diff_distrib')
  show ?thesis
  proof (cases "t \<le> timestamp (points ! 0)")
    case True
    then show ?thesis by (simp add: interpCount_def e0)
  next
    case first: False
    show ?thesis
    proof (cases "timestamp (points ! (?n - 1)) \<le> t")
      case True
      then show ?thesis using first by (simp add: interpCount_def e0 en)
    next
      case last: False
      have unf: "interpCount points t =
        (case bsearch points t 0 (int ?n - 1) of
           Inl e \<Rightarrow> Inl e
         | Inr (Return c) \<Rightarrow> Inr c
         | Inr (Exit lo) \<Rightarrow>
             (let right = lo; left = right - 1 in
              case elem points left of
                Inl e \<Rightarrow> Inl e
              | Inr pL \<Rightarrow>
                  (case elem points right of
                     Inl e \<Rightarrow> Inl e
                   | Inr pR \<Rightarrow>
                       (case js_div (real_of_int (t - timestamp pL))
                                    (real_of_int (timestamp pR - timestamp pL)) of
                          Inl e \<Rightarrow> Inl e
                        | Inr fraction \<Rightarrow>
                            Inr (count pL + (count pR - count pL) * fraction)))))"
        using first last by (simp add: interpCount_def e0 en)
      from bsearch_inv [of 0 "int ?n - 1" points t]
      consider (hit) i where "i < ?n" "timestamp (points ! i) = t"
          "bsearch points t 0 (int ?n - 1) = Inr (Return (count (points ! i)))"
        | (miss) k where "0 \<le> k" "k \<le> int ?n"
          "k = 0 \<or> timestamp (points ! nat (k - 1)) < t"
          "k = int ?n \<or> t < timestamp (points ! nat k)"
          "bsearch points t 0 (int ?n - 1) = Inr (Exit k)"
        using n by auto
      then show ?thesis
      proof cases
        case hit
        then show ?thesis by (auto simp: unf)
      next
        case miss
        have k0: "k \<noteq> 0" using miss(4) first n by auto
        have kn: "k \<noteq> int ?n" using miss(3) last k0 by (auto simp: nat_diff_distrib')
        define j where "j = nat k"
        have j: "0 < j" "j < ?n" "k = int j" using k0 kn miss(1,2) by (auto simp: j_def)
        have nk: "nat (k - 1) = j - 1" using j by (simp add: nat_diff_distrib')
        have lt: "timestamp (points ! (j - 1)) < t" "t < timestamp (points ! j)"
          using miss(3,4) k0 kn nk by (auto simp: j_def)
        have eL: "elem points (k - 1) = Inr (points ! (j - 1))"
          using j nk by (simp add: elem_def)
        have eR: "elem points k = Inr (points ! j)"
          using j by (simp add: elem_def)
        have d: "real_of_int (timestamp (points ! j) - timestamp (points ! (j - 1))) \<noteq> 0"
          using lt by simp
        have "interpCount points t =
          Inr (count (points ! (j - 1)) + (count (points ! j) - count (points ! (j - 1))) *
              (real_of_int (t - timestamp (points ! (j - 1))) /
               real_of_int (timestamp (points ! j) - timestamp (points ! (j - 1)))))"
          using d by (simp add: unf miss(5) eL eR js_div_def del: of_int_diff)
        then show ?thesis using j lt by blast
      qed
    qed
  qed
qed

lemma interpCount_returns:
  assumes "points \<noteq> []"
  shows "\<exists>v. interpCount points t = Inr v"
  using interpCount_cases [OF assms, of t] by blast

lemma interpCount_first:
  "points \<noteq> [] \<Longrightarrow> t \<le> timestamp (points ! 0) \<Longrightarrow>
   interpCount points t = Inr (count (points ! 0))"
  by (simp add: interpCount_def elem_def)

lemma interpCount_last:
  "points \<noteq> [] \<Longrightarrow> timestamp (points ! 0) < t \<Longrightarrow>
   timestamp (points ! (length points - 1)) \<le> t \<Longrightarrow>
   interpCount points t = Inr (count (points ! (length points - 1)))"
  by (simp add: interpCount_def elem_def nat_diff_distrib')

text \<open>
  Claim C9. For a series with at least one sample and every query time, the binary search
  returns and so does the interpolator (no read out of range, no division by zero); when
  the search falls through to the interpolation branch with \<open>right = lo\<close> and
  \<open>left = lo - 1\<close>, then \<open>0 \<le> left < right \<le> n - 1\<close>, both reads are in range and
  the right timestamp exceeds the left one. Strictly increasing timestamps are not even
  needed for this.
\<close>

theorem interpCount_in_bounds:
  assumes ne: "points \<noteq> []"
  shows "(\<exists>r. bsearch points t 0 (int (length points) - 1) = Inr r) \<and>
    (\<exists>v. interpCount points t = Inr v) \<and>
    (\<forall>lo. timestamp (points ! 0) < t \<and> t < timestamp (points ! (length points - 1)) \<and>
        bsearch points t 0 (int (length points) - 1) = Inr (Exit lo) \<longrightarrow>
        0 \<le> lo - 1 \<and> lo - 1 < lo \<and> lo \<le> int (length points) - 1 \<and>
        elem points (lo - 1) = Inr (points ! nat (lo - 1)) \<and>
        elem points lo = Inr (points ! nat lo) \<and>
        0 < timestamp (points ! nat lo) - timestamp (points ! nat (lo - 1)))"
proof (intro conjI allI impI)
  have n: "0 < length points" using ne by simp
  note inv = bsearch_inv [of 0 "int (length points) - 1" points t]
  show "\<exists>r. bsearch points t 0 (int (length points) - 1) = Inr r"
    using inv n by auto
  show "\<exists>v. interpCount points t = Inr v" by (rule interpCount_returns [OF ne])
  fix lo
  assume a: "timestamp (points ! 0) < t \<and> t < timestamp (points ! (length points - 1)) \<and>
        bsearch points t 0 (int (length points) - 1) = Inr (Exit lo)"
  then have k: "0 \<le> lo" "lo \<le> int (length points)"
    "lo = 0 \<or> timestamp (points ! nat (lo - 1)) < t"
    "lo = int (length points) \<or> t < timestamp (points ! nat lo)"
    using inv n by auto
  have k0: "lo \<noteq> 0" using k(4) a n by auto
  have kn: "lo \<noteq> int (length points)" using k(3) a k0 by (auto simp: nat_diff_distrib')
  show "0 \<le> lo - 1" using k0 k(1) by simp
  show "lo - 1 < lo" by simp
  show "lo \<le> int (length points) - 1" using kn k(2) by simp
  show "elem points (lo - 1) = Inr (points ! nat (lo - 1))"
    using k0 k(1,2) by (simp add: elem_def)
  show "elem points lo = Inr (points ! nat lo)"
    using kn k(1,2) by (simp add: elem_def)
  show "0 < timestamp (points ! nat lo) - timestamp (points ! nat (lo - 1))"
    using k(3,4) k0 kn by simp
qed

text \<open>
  An instance of C9: the series \<open>(0, 0), (10, 10)\<close> queried at 5.
\<close>

theorem interpCount_in_bounds_witness:
  "twoPoints \<noteq> [] \<and> (\<exists>v. interpCount twoPoints 5 = Inr v) \<and>
   (\<exists>r. bsearch twoPoints 5 0 (int (length twoPoints) - 1) = Inr r)"
proof -
  have h: "twoPoints \<noteq> []" by (simp add: twoPoints_def)
  from interpCount_in_bounds [OF h, of 5] h show ?thesis by blast
qed

section \<open>Interpolator: monotonicity\<close>

lemma ts_index_less:
  assumes "sorted_wrt (<) (map timestamp points)" "i < length points" "j < length points"
    "timestamp (points ! i) < timestamp (points ! j)"
  shows "i < j"
proof (rule ccontr)
  assume "\<not> i < j"
  then have "j = i \<or> j < i" by auto
  then show False
  proof
    assume "j = i" with assms(4) show False by simp
  next
    assume "j < i"
    with assms(1,2) have "timestamp (points ! j) < timestamp (points ! i)"
      using sorted_wrt_nth_less [of "(<)" "map timestamp points" j i] by simp
    with assms(4) show False by simp
  qed
qed

lemma ts_index_le:
  assumes "sorted_wrt (<) (map timestamp points)" "i < length points" "j < length points"
    "timestamp (points ! i) \<le> timestamp (points ! j)"
  shows "i \<le> j"
proof (rule ccontr)
  assume "\<not> i \<le> j"
  then have "j < i" by simp
  with assms(1,2) have "timestamp (points ! j) < timestamp (points ! i)"
    using sorted_wrt_nth_less [of "(<)" "map timestamp points" j i] by simp
  with assms(4) show False by simp
qed

lemma ts_index_mono:
  assumes "sorted_wrt (<) (map timestamp points)" "i \<le> j" "j < length points"
  shows "timestamp (points ! i) \<le> timestamp (points ! j)"
proof (cases "i = j")
  case False
  with assms have "timestamp (points ! i) < timestamp (points ! j)"
    using sorted_wrt_nth_less [of "(<)" "map timestamp points" i j] by simp
  then show ?thesis by simp
qed simp

lemma count_index_mono:
  assumes "sorted (map count points)" "i \<le> j" "j < length points"
  shows "count (points ! i) \<le> count (points ! j)"
  using assms sorted_nth_mono [of "map count points" i j] by simp

lemma interpCount_segment:
  assumes "sorted_wrt (<) (map timestamp points)" "0 < k" "k < length points"
    "timestamp (points ! (k - 1)) < t" "t < timestamp (points ! k)"
  shows "interpCount points t = Inr (segment_value points k t)"
proof -
  have ne: "points \<noteq> []" using assms(3) by auto
  have lo: "timestamp (points ! 0) \<le> timestamp (points ! (k - 1))"
    using ts_index_mono [OF assms(1), of 0 "k - 1"] assms(3) by simp
  have hi: "timestamp (points ! k) \<le> timestamp (points ! (length points - 1))"
    using ts_index_mono [OF assms(1), of k "length points - 1"] assms(3) by simp
  from interpCount_cases [OF ne, of t] show ?thesis
  proof (elim disjE conjE exE)
    assume "t \<le> timestamp (points ! 0)"
    with lo assms(4) show ?thesis by simp
  next
    assume "timestamp (points ! (length points - 1)) \<le> t"
    with hi assms(5) show ?thesis by simp
  next
    fix i assume i: "i < length points" "timestamp (points ! i) = t"
    have "k - 1 < i" using ts_index_less [OF assms(1), of "k - 1" i] assms i by simp
    moreover have "i < k" using ts_index_less [OF assms(1), of i k] assms i by simp
    ultimately show ?thesis by simp
  next
    fix k' assume k': "0 < k'" "k' < length points" "timestamp (points ! (k' - 1)) < t"
      "t < timestamp (points ! k')"
      and v: "interpCount points t =
         Inr (count (points ! (k' - 1)) + (count (points ! k') - count (points ! (k' - 1))) *
              (real_of_int (t - timestamp (points ! (k' - 1))) /
               real_of_int (timestamp (points ! k') - timestamp (points ! (k' - 1)))))"
    have "k - 1 < k'" using ts_index_less [OF assms(1), of "k - 1" k'] assms k' by simp
    moreover have "k' - 1 < k" using ts_index_less [OF assms(1), of "k' - 1" k] assms k' by simp
    ultimately have "k' = k" using assms(2) k'(1) by simp
    with v show ?thesis by (simp add: segment_value_def)
  qed
qed

lemma segment_value_mono:
  assumes "count (points ! (k - 1)) \<le> count (points ! k)"
    "timestamp (points ! (k - 1)) < timestamp (points ! k)" "t1 \<le> t2"
  shows "segment_value points k t1 \<le> segment_value points k t2"
proof -
  have "real_of_int (t1 - timestamp (points ! (k - 1))) /
          real_of_int (timestamp (points ! k) - timestamp (points ! (k - 1)))
        \<le> real_of_int (t2 - timestamp (points ! (k - 1))) /
          real_of_int (timestamp (points ! k) - timestamp (points ! (k - 1)))"
    using assms(2,3) by (intro divide_right_mono) simp_all
  then show ?thesis
    unfolding segment_value_def using assms(1)
    by (intro add_left_mono mult_left_mono) simp_all
qed

lemma segment_value_bounds:
  assumes "count (points ! (k - 1)) \<le> count (points ! k)"
    "timestamp (points ! (k - 1)) < t" "t < timestamp (points ! k)"
  shows "count (points ! (k - 1)) \<le> segment_value points k t"
    and "segment_value points k t \<le> count (points ! k)"
proof -
  let ?a = "count (points ! (k - 1))" and ?b = "count (points ! k)"
  let ?f = "real_of_int (t - timestamp (points ! (k - 1))) /
        real_of_int (timestamp (points ! k) - timestamp (points ! (k - 1)))"
  have f0: "0 \<le> ?f" using assms(2,3) by simp
  have f1: "?f \<le> 1" using assms(2,3) by simp
  define f where "f = ?f"
  have seg: "segment_value points k t = ?a + (?b - ?a) * f"
    by (simp only: segment_value_def f_def)
  have "0 \<le> (?b - ?a) * f" using assms(1) f0 unfolding f_def by (intro mult_nonneg_nonneg) simp_all
  then show "?a \<le> segment_value points k t" unfolding seg by linarith
  have "(?b - ?a) * f \<le> ?b - ?a"
    using assms(1) f1 unfolding f_def by (intro mult_left_le) simp_all
  then show "segment_value points k t \<le> ?b" unfolding seg by linarith
qed

lemma interpCount_bounds:
  assumes ne: "points \<noteq> []" and st: "sorted_wrt (<) (map timestamp points)"
    and mono: "sorted (map count points)"
    and v: "interpCount points t = Inr v" and i: "i < length points"
  shows "(timestamp (points ! i) \<le> t \<longrightarrow> count (points ! i) \<le> v) \<and>
         (t \<le> timestamp (points ! i) \<longrightarrow> v \<le> count (points ! i))"
proof -
  let ?n = "length points"
  have n: "0 < ?n" using ne by simp
  from interpCount_cases [OF ne, of t] show ?thesis
  proof (elim disjE conjE exE)
    assume a: "t \<le> timestamp (points ! 0)" "interpCount points t = Inr (count (points ! 0))"
    then have v0: "v = count (points ! 0)" using v by simp
    have "count (points ! 0) \<le> count (points ! i)"
      using count_index_mono [OF mono, of 0 i] i by simp
    moreover have "timestamp (points ! i) \<le> t \<Longrightarrow> i = 0"
      using ts_index_le [OF st i n] a(1) by simp
    ultimately show ?thesis using v0 by auto
  next
    assume b: "timestamp (points ! (?n - 1)) \<le> t"
      "interpCount points t = Inr (count (points ! (?n - 1)))"
    then have vn: "v = count (points ! (?n - 1))" using v by simp
    have "count (points ! i) \<le> count (points ! (?n - 1))"
      using count_index_mono [OF mono, of i "?n - 1"] i by simp
    moreover have "t \<le> timestamp (points ! i) \<Longrightarrow> i = ?n - 1"
      using ts_index_le [OF st, of "?n - 1" i] b(1) i n by simp
    ultimately show ?thesis using vn by auto
  next
    fix j assume j: "j < ?n" "timestamp (points ! j) = t"
      "interpCount points t = Inr (count (points ! j))"
    then have vj: "v = count (points ! j)" using v by simp
    have "timestamp (points ! i) \<le> t \<Longrightarrow> count (points ! i) \<le> count (points ! j)"
      using ts_index_le [OF st i j(1)] j(2) count_index_mono [OF mono _ j(1)] by simp
    moreover have "t \<le> timestamp (points ! i) \<Longrightarrow> count (points ! j) \<le> count (points ! i)"
      using ts_index_le [OF st j(1) i] j(2) count_index_mono [OF mono _ i] by simp
    ultimately show ?thesis using vj by auto
  next
    fix k assume k: "0 < k" "k < ?n" "timestamp (points ! (k - 1)) < t"
      "t < timestamp (points ! k)"
    have cm: "count (points ! (k - 1)) \<le> count (points ! k)"
      using count_index_mono [OF mono, of "k - 1" k] k(2) by simp
    have "interpCount points t = Inr (segment_value points k t)"
      using interpCount_segment [OF st k] .
    then have vk: "v = segment_value points k t" using v by simp
    have lo: "timestamp (points ! i) \<le> t \<Longrightarrow> count (points ! i) \<le> v"
    proof -
      assume "timestamp (points ! i) \<le> t"
      then have "i < k" using ts_index_less [OF st i k(2)] k(4) by simp
      then have "count (points ! i) \<le> count (points ! (k - 1))"
        using count_index_mono [OF mono, of i "k - 1"] k(2) by simp
      then show ?thesis using segment_value_bounds(1) [OF cm k(3,4)] vk by simp
    qed
    have hi: "t \<le> timestamp (points ! i) \<Longrightarrow> v \<le> count (points ! i)"
    proof -
      assume "t \<le> timestamp (points ! i)"
      then have "k - 1 < i" using ts_index_less [OF st _ i, of "k - 1"] k(2,3) by simp
      then have "count (points ! k) \<le> count (points ! i)"
        using count_index_mono [OF mono, of k i] i by simp
      then show ?thesis using segment_value_bounds(2) [OF cm k(3,4)] vk by simp
    qed
    show ?thesis using lo hi by blast
  qed
qed

lemma gap_position:
  fixes points :: "DataPoint list"
  assumes ne: "points \<noteq> []"
    and gap: "\<forall>i < length points. timestamp (points ! i) < t1 \<or> t2 < timestamp (points ! i)"
    and le: "t1 \<le> t2"
  shows "t2 < timestamp (points ! 0) \<or> timestamp (points ! (length points - 1)) < t1 \<or>
    (\<exists>k. 0 < k \<and> k < length points \<and> timestamp (points ! (k - 1)) < t1 \<and>
         t2 < timestamp (points ! k))"
proof (cases "t2 < timestamp (points ! 0) \<or> timestamp (points ! (length points - 1)) < t1")
  case True
  then show ?thesis by blast
next
  case False
  let ?n = "length points"
  have n: "0 < ?n" using ne by simp
  have "timestamp (points ! 0) < t1 \<or> t2 < timestamp (points ! 0)" using gap n by blast
  then have first: "timestamp (points ! 0) < t1" using False by blast
  have "?n - 1 < ?n" using n by simp
  then have "timestamp (points ! (?n - 1)) < t1 \<or> t2 < timestamp (points ! (?n - 1))"
    using gap by blast
  then have last: "t2 < timestamp (points ! (?n - 1))" using False by blast
  define k where "k = (LEAST k. k < ?n \<and> t2 < timestamp (points ! k))"
  have ex: "?n - 1 < ?n \<and> t2 < timestamp (points ! (?n - 1))" using n last by simp
  have kp: "k < ?n \<and> t2 < timestamp (points ! k)"
    unfolding k_def by (rule LeastI [of "\<lambda>k. k < ?n \<and> t2 < timestamp (points ! k)", OF ex])
  have k0: "0 < k"
  proof (rule ccontr)
    assume "\<not> 0 < k"
    then have "k = 0" by simp
    with kp first le show False by simp
  qed
  have "\<not> (k - 1 < ?n \<and> t2 < timestamp (points ! (k - 1)))"
    using not_less_Least [of "k - 1" "\<lambda>k. k < ?n \<and> t2 < timestamp (points ! k)"] k0
    unfolding k_def by simp
  moreover have km: "k - 1 < ?n" using kp by arith
  ultimately have "\<not> t2 < timestamp (points ! (k - 1))" by blast
  moreover from km have "timestamp (points ! (k - 1)) < t1 \<or> t2 < timestamp (points ! (k - 1))"
    using gap by blast
  ultimately have "timestamp (points ! (k - 1)) < t1" by blast
  then show ?thesis using k0 kp by blast
qed

text \<open>
  Claim C5. For a non-empty series with strictly increasing timestamps and non-decreasing
  counts, the interpolator returns at every query time, and what it returns is
  non-decreasing in the query time, the clamped regions before the first and after the
  last sample included. (On the empty series \<^verbatim>\<open>interpCount\<close> throws; \<^verbatim>\<open>peakHourly\<close>
  calls it only with at least two points.)
\<close>

theorem interpCount_monotone:
  assumes ne: "points \<noteq> []" and st: "sorted_wrt (<) (map timestamp points)"
    and mono: "sorted (map count points)" and le: "t1 \<le> t2"
  shows "\<exists>v1 v2. interpCount points t1 = Inr v1 \<and> interpCount points t2 = Inr v2 \<and> v1 \<le> v2"
proof -
  let ?n = "length points"
  have n: "0 < ?n" using ne by simp
  obtain v1 where v1: "interpCount points t1 = Inr v1"
    using interpCount_returns [OF ne] by blast
  obtain v2 where v2: "interpCount points t2 = Inr v2"
    using interpCount_returns [OF ne] by blast
  have "v1 \<le> v2"
  proof (cases "\<exists>i < ?n. t1 \<le> timestamp (points ! i) \<and> timestamp (points ! i) \<le> t2")
    case True
    then obtain i where i: "i < ?n" "t1 \<le> timestamp (points ! i)" "timestamp (points ! i) \<le> t2"
      by blast
    have "v1 \<le> count (points ! i)"
      using interpCount_bounds [OF ne st mono v1 i(1)] i(2) by simp
    moreover have "count (points ! i) \<le> v2"
      using interpCount_bounds [OF ne st mono v2 i(1)] i(3) by simp
    ultimately show ?thesis by simp
  next
    case False
    then have gap: "\<forall>i < ?n. timestamp (points ! i) < t1 \<or> t2 < timestamp (points ! i)"
      by force
    from gap_position [OF ne gap le] show ?thesis
    proof (elim disjE exE conjE)
      assume "t2 < timestamp (points ! 0)"
      then have "interpCount points t1 = Inr (count (points ! 0))"
        "interpCount points t2 = Inr (count (points ! 0))"
        using le by (simp_all add: interpCount_first [OF ne])
      with v1 v2 show ?thesis by simp
    next
      assume a: "timestamp (points ! (?n - 1)) < t1"
      have "timestamp (points ! 0) \<le> timestamp (points ! (?n - 1))"
        using ts_index_mono [OF st, of 0 "?n - 1"] n by simp
      then have "interpCount points t1 = Inr (count (points ! (?n - 1)))"
        "interpCount points t2 = Inr (count (points ! (?n - 1)))"
        using le a by (simp_all add: interpCount_last [OF ne])
      with v1 v2 show ?thesis by simp
    next
      fix k assume k: "0 < k" "k < ?n" "timestamp (points ! (k - 1)) < t1"
        "t2 < timestamp (points ! k)"
      have "interpCount points t1 = Inr (segment_value points k t1)"
        using interpCount_segment [OF st k(1,2), of t1] k(3,4) le by simp
      moreover have "interpCount points t2 = Inr (segment_value points k t2)"
        using interpCount_segment [OF st k(1,2), of t2] k(3,4) le by simp
      moreover have "count (points ! (k - 1)) \<le> count (points ! k)"
        using count_index_mono [OF mono, of "k - 1" k] k(2) by simp
      moreover have "timestamp (points ! (k - 1)) < timestamp (points ! k)"
        using k(3,4) le by simp
      ultimately show ?thesis using segment_value_mono [OF _ _ le, of points k] v1 v2 by simp
    qed
  qed
  with v1 v2 show ?thesis by blast
qed

text \<open>
  An instance of C5: the series \<open>(0, 0), (10, 10)\<close> queried at 2 and at 7.
\<close>

theorem interpCount_monotone_witness:
  "twoPoints \<noteq> [] \<and> sorted_wrt (<) (map timestamp twoPoints) \<and> sorted (map count twoPoints) \<and>
   (2::int) \<le> 7 \<and>
   (\<exists>v1 v2. interpCount twoPoints 2 = Inr v1 \<and> interpCount twoPoints 7 = Inr v2 \<and> v1 \<le> v2)"
proof -
  have h: "twoPoints \<noteq> []" "sorted_wrt (<) (map timestamp twoPoints)"
    "sorted (map count twoPoints)" "(2::int) \<le> 7"
    by (simp_all add: twoPoints_def)
  from interpCount_monotone [OF h] h show ?thesis by blast
qed

section \<open>Trend calculator\<close>

lemma computeStats_some:
  assumes "1 < length allRows" "peakHourly allRows = Inr peak"
  shows "\<exists>s. computeStats now allRows = Inr (Some s) \<and>
    averagePerHour s = avgPerHour (allRows ! 0) (allRows ! (length allRows - 1)) \<and>
    peakSignupsPerHour s = max 0 peak \<and>
    totalSignups s = count (allRows ! (length allRows - 1))"
  using assms by (simp add: computeStats_def Let_def split: prod.splits)

text \<open>
  Claim C2. On the series \<open>(t0, 0), (t0 + 30 min, 10), (t0 + 90 min, 40)\<close> the average
  rate is \<open>40 / 1.5\<close>, which is 26.67 to two decimals, computed as the count difference
  over the hours between first and latest sample floored at \<open>1e-6\<close>; the interpolator
  gives 40 at \<open>t0 + 90 min\<close> and 10 one hour earlier, and the peak one-hour rate is 30.
\<close>

theorem scenario_stats:
  "avgPerHour (scenario t0 ! 0) (scenario t0 ! 2) = 40 / 1.5 \<and>
   \<bar>avgPerHour (scenario t0 ! 0) (scenario t0 ! 2) - 26.67\<bar> < 0.005 \<and>
   avgPerHour first latest =
     (count latest - count first) /
       max (real_of_int (timestamp latest - timestamp first) / 3600000) (1 / 10 ^ 6) \<and>
   interpCount (scenario t0) (t0 + 90 * 60 * 1000) = Inr 40 \<and>
   interpCount (scenario t0) (t0 + 90 * 60 * 1000 - oneHourMs) = Inr 10 \<and>
   peakHourly (scenario t0) = Inr 30 \<and>
   (\<exists>s. computeStats now (scenario t0) = Inr (Some s) \<and> averagePerHour s = 40 / 1.5 \<and>
        peakSignupsPerHour s = 30)"
proof (intro conjI)
  show "avgPerHour (scenario t0 ! 0) (scenario t0 ! 2) = 40 / 1.5"
    by (simp add: scenario_def avgPerHour_def)
  show "\<bar>avgPerHour (scenario t0 ! 0) (scenario t0 ! 2) - 26.67\<bar> < 0.005"
    by (simp add: scenario_def avgPerHour_def)
  show "avgPerHour first latest =
     (count latest - count first) /
       max (real_of_int (timestamp latest - timestamp first) / 3600000) (1 / 10 ^ 6)"
    by (simp add: avgPerHour_def Let_def)
  show "interpCount (scenario t0) (t0 + 90 * 60 * 1000) = Inr 40"
    by (simp add: scenario_def interpCount_def elem_def)
  show "interpCount (scenario t0) (t0 + 90 * 60 * 1000 - oneHourMs) = Inr 10"
    by (simp add: scenario_def interpCount_def elem_def bsearch.simps oneHourMs_def)
  show p: "peakHourly (scenario t0) = Inr 30"
    by (simp add: peakHourly_def scenario_def interpCount_def elem_def bsearch.simps oneHourMs_def)
  have a: "avgPerHour (scenario t0 ! 0) (scenario t0 ! (length (scenario t0) - 1)) = 40 / 1.5"
    by (simp add: scenario_def avgPerHour_def)
  have l: "1 < length (scenario t0)" by (simp add: scenario_def)
  show "\<exists>s. computeStats now (scenario t0) = Inr (Some s) \<and> averagePerHour s = 40 / 1.5 \<and>
        peakSignupsPerHour s = 30"
    using computeStats_some [OF l p, of now] a by auto
qed

text \<open>
  An instance of C2 at \<open>t0 = 0\<close>.
\<close>

theorem scenario_stats_witness:
  "peakHourly (scenario 0) = Inr 30 \<and> avgPerHour (scenario 0 ! 0) (scenario 0 ! 2) = 40 / 1.5"
  using scenario_stats [of 0] by blast

section \<open>Rounding to the nearest double\<close>

lemma find_rev_upto:
  "l \<le> e \<Longrightarrow> e \<le> u \<Longrightarrow> P e \<Longrightarrow> (\<forall>e'. e < e' \<and> e' \<le> u \<longrightarrow> \<not> P e') \<Longrightarrow>
   find P (rev [l..u]) = Some e"
proof (induction "nat (u - e)" arbitrary: u)
  case 0
  then have "u = e" by simp
  then have "[l..u] = [l..e - 1] @ [e]" using 0 by (simp add: upto_rec2)
  then show ?case using 0 by simp
next
  case (Suc n)
  then have lt: "e < u" by simp
  then have "[l..u] = [l..u - 1] @ [u]" using Suc.prems by (simp add: upto_rec2)
  moreover have "\<not> P u" using Suc.prems lt by simp
  moreover have "find P (rev [l..u - 1]) = Some e"
    using Suc.hyps(1) [of "u - 1"] Suc.hyps(2) Suc.prems lt by simp
  ultimately show ?case by simp
qed

lemma binade_eq:
  assumes "-1074 \<le> e" "e \<le> 1023" "2 powi e \<le> \<bar>x\<bar>" "\<bar>x\<bar> < 2 powi (e + 1)"
  shows "binade x = e"
proof -
  have "\<not> 2 powi e' \<le> \<bar>x\<bar>" if "e < e'" for e' :: int
  proof -
    have "(2::real) powi (e + 1) \<le> 2 powi e'" using that by (intro power_int_increasing) simp_all
    with assms(4) show ?thesis by simp
  qed
  then have "find (\<lambda>e. 2 powi e \<le> \<bar>x\<bar>) (rev [-1074..1023]) = Some e"
    using assms(1-3) by (intro find_rev_upto) auto
  then show ?thesis unfolding binade_def by (simp only: option.case)
qed

lemma round_even_of_int: "round_even (of_int k) = k"
  by (simp add: round_even_def)

lemma fl_normal:
  assumes e: "-1022 \<le> e" "e \<le> 1023" and x: "2 powi e \<le> \<bar>x\<bar>" "\<bar>x\<bar> < 2 powi (e + 1)"
    and u: "u = 2 powi (e - 52)" and m: "m = round_even (\<bar>x\<bar> / u)"
    and fin: "of_int m * u < 2 ^ 1024"
  shows "fl x = Num (if x < 0 then - (of_int m * u) else of_int m * u)"
proof -
  have b: "binade x = e" using e x by (intro binade_eq) simp_all
  have upos: "0 < u" unfolding u by simp
  have "(2::real) powi (52 + (e - 52)) = 2 powi 52 * 2 powi (e - 52)"
    by (rule power_int_add) simp
  then have "(2::real) powi e = 2 powi 52 * u" by (simp add: u)
  then have "2 powi 52 * u \<le> \<bar>x\<bar>" using x(1) by simp
  then have "2 powi 52 \<le> \<bar>x\<bar> / u" using upos by (simp only: le_divide_eq) simp
  moreover have "(1::real) \<le> 2 powi 52" by (rule one_le_power_int) simp_all
  ultimately have y1: "(1::real) \<le> \<bar>x\<bar> / u" by linarith
  define y where "y = \<bar>x\<bar> / u"
  have "1 \<le> \<lfloor>y\<rfloor>" using y1 unfolding y_def by (simp add: le_floor_iff)
  then have "1 \<le> round_even y" unfolding round_even_def Let_def by simp
  then have m1: "1 \<le> m" unfolding m y_def .
  then have nz: "of_int m * u \<noteq> 0" using upos by simp
  have mx: "max (binade x) (- 1022) - 52 = e - 52" using e b by simp
  have fin': "\<not> 2 ^ 1024 \<le> real_of_int m * u" using fin by simp
  show ?thesis
    unfolding fl_def Let_def mx u [symmetric] m [symmetric]
    by (simp only: fin' nz if_False)
qed

lemma find_never: "(\<And>x. \<not> P x) \<Longrightarrow> find P xs = None"
  by (induction xs) simp_all

lemma binade_zero: "binade 0 = -1075"
proof -
  have "\<not> (2::real) powi e \<le> \<bar>0\<bar>" for e :: int
    by (simp add: not_le)
  then have "find (\<lambda>e. (2::real) powi e \<le> \<bar>0\<bar>) (rev [-1074..1023]) = None"
    by (rule find_never)
  then show ?thesis unfolding binade_def by (simp only: option.case)
qed

lemma fl_zero: "fl 0 = Num 0"
proof -
  have "round_even (\<bar>0\<bar> / 2 powi (max (binade 0) (- 1022) - 52)) = 0"
    by (simp add: round_even_def)
  then show ?thesis unfolding fl_def Let_def by (simp only: of_int_0 mult_zero_left) simp
qed

lemma ex_binade_int:
  fixes k :: int
  assumes "0 < k" "k < 2 ^ 53"
  shows "\<exists>n \<le> 52. 2 ^ n \<le> k \<and> k < 2 ^ (n + 1)"
proof -
  define N where "N = (LEAST n. k < 2 ^ n)"
  have lt: "k < 2 ^ N" unfolding N_def by (rule LeastI [of "\<lambda>n. k < 2 ^ n" 53]) (rule assms(2))
  have le: "N \<le> 53" unfolding N_def by (rule Least_le) (rule assms(2))
  have "N \<noteq> 0" using lt assms(1) by (cases N) auto
  then obtain n where n: "N = Suc n" by (cases N) auto
  have "\<not> k < 2 ^ n" using not_less_Least [of n "\<lambda>n. k < 2 ^ n"] n unfolding N_def by simp
  then show ?thesis using lt le n by (intro exI [of _ n]) simp
qed

lemma fl_of_int:
  fixes k :: int
  assumes "\<bar>k\<bar> < 2 ^ 53"
  shows "fl (of_int k) = Num (of_int k)"
proof (cases "k = 0")
  case True
  then show ?thesis by (simp add: fl_zero)
next
  case False
  then have pos: "0 < \<bar>k\<bar>" by simp
  from ex_binade_int [OF pos assms] obtain n where n: "n \<le> 52" "2 ^ n \<le> \<bar>k\<bar>" "\<bar>k\<bar> < 2 ^ (n + 1)"
    by blast
  define e where "e = int n"
  define u :: real where "u = 2 powi (e - 52)"
  define m where "m = \<bar>k\<bar> * 2 ^ (52 - n)"
  have er: "-1022 \<le> e" "e \<le> 1023" using n(1) by (simp_all add: e_def)
  have x1: "2 powi e \<le> \<bar>real_of_int k\<bar>"
  proof -
    have "real_of_int (2 ^ n) \<le> real_of_int \<bar>k\<bar>" using n(2) by (simp only: of_int_le_iff)
    then show ?thesis by (simp add: e_def)
  qed
  have x2: "\<bar>real_of_int k\<bar> < 2 powi (e + 1)"
  proof -
    have "real_of_int \<bar>k\<bar> < real_of_int (2 ^ (n + 1))" using n(3) by (simp only: of_int_less_iff)
    moreover have "e + 1 = int (n + 1)" by (simp add: e_def)
    ultimately show ?thesis by (simp only: power_int_of_nat) simp
  qed
  have uval: "u = 1 / 2 ^ (52 - n)"
  proof -
    have "e - 52 = - int (52 - n)" using n(1) by (simp add: e_def)
    then show ?thesis unfolding u_def by (simp only: power_int_minus power_int_of_nat) (simp add: field_simps)
  qed
  have q: "\<bar>real_of_int k\<bar> / u = real_of_int m" by (simp add: uval m_def)
  have mr: "m = round_even (\<bar>real_of_int k\<bar> / u)" by (simp only: q round_even_of_int)
  have mu: "real_of_int m * u = \<bar>real_of_int k\<bar>" by (simp add: uval m_def)
  have "\<bar>real_of_int k\<bar> < 2 ^ 53"
  proof -
    have "real_of_int \<bar>k\<bar> < real_of_int (2 ^ 53)" using assms by (simp only: of_int_less_iff)
    then show ?thesis by simp
  qed
  moreover have "(2::real) ^ 53 \<le> 2 ^ 1024" by (rule power_increasing) simp_all
  ultimately have fin: "real_of_int m * u < 2 ^ 1024" unfolding mu by linarith
  have "fl (real_of_int k) = Num (if real_of_int k < 0 then - (of_int m * u) else of_int m * u)"
    by (rule fl_normal [OF er x1 x2 u_def mr fin])
  then show ?thesis unfolding mu by (simp add: abs_if)
qed

lemma fl_pos_eval:
  assumes "- 1022 \<le> e" "e \<le> 1023" "2 powi e \<le> x" "x < 2 powi (e + 1)"
    "u = 2 powi (e - 52)" "m = round_even (x / u)" "of_int m * u < 2 ^ 1024"
  shows "fl x = Num (of_int m * u)"
proof -
  have "0 < (2::real) powi e" by simp
  then have pos: "0 < x" using assms(3) by linarith
  then have a: "\<bar>x\<bar> = x" by simp
  have x1: "2 powi e \<le> \<bar>x\<bar>" using assms(3) a by simp
  have x2: "\<bar>x\<bar> < 2 powi (e + 1)" using assms(4) a by simp
  have m': "m = round_even (\<bar>x\<bar> / u)" using assms(6) a by simp
  have "fl x = Num (if x < 0 then - (of_int m * u) else of_int m * u)"
    by (rule fl_normal [OF assms(1,2) x1 x2 assms(5) m' assms(7)])
  then show ?thesis using pos by simp
qed

lemma fl_numeral: "numeral n < (2::int) ^ 53 \<Longrightarrow> fl (numeral n) = Num (numeral n)"
  using fl_of_int [of "numeral n"] by simp

lemma round_even_ge_floor: "\<lfloor>y\<rfloor> \<le> round_even y"
  by (simp add: round_even_def Let_def)

lemma binade_top:
  assumes "2 ^ 1024 \<le> \<bar>x\<bar>"
  shows "binade x = 1023"
proof -
  have "(2::real) powi 1023 \<le> 2 ^ 1024" by simp
  then have p: "2 powi 1023 \<le> \<bar>x\<bar>" using assms by linarith
  have "find (\<lambda>e. 2 powi e \<le> \<bar>x\<bar>) (rev [-1074..1023]) = Some 1023"
    by (rule find_rev_upto) (use p in simp_all)
  then show ?thesis unfolding binade_def by (simp only: option.case)
qed

lemma fl_overflow:
  assumes "2 ^ 1024 \<le> x"
  shows "fl x = PosInfinity"
proof -
  have "(0::real) < 2 ^ 1024" by simp
  then have pos: "0 < x" using assms by linarith
  have b: "binade x = 1023" using assms pos by (intro binade_top) simp
  define u :: real where "u = 2 powi 971"
  have u: "0 < u" by (simp add: u_def)
  have "2 ^ 1024 = (2 ^ 53) * u" by (simp add: u_def power_int_def flip: power_add)
  then have "2 ^ 53 \<le> x / u" using assms u by (simp add: pos_le_divide_eq)
  then have "(2::int) ^ 53 \<le> \<lfloor>x / u\<rfloor>" by (simp add: le_floor_iff)
  then have m: "2 ^ 53 \<le> round_even (x / u)" using round_even_ge_floor [of "x / u"] by linarith
  then have "(2::real) ^ 53 \<le> of_int (round_even (x / u))"
    by (metis of_int_le_iff of_int_numeral of_int_power)
  then have "2 ^ 53 * u \<le> of_int (round_even (x / u)) * u" using u by simp
  then have v: "2 ^ 1024 \<le> of_int (round_even (x / u)) * u"
    using \<open>2 ^ 1024 = (2 ^ 53) * u\<close> by simp
  have a: "\<bar>x\<bar> = x" using pos by simp
  have "max (binade x) (- 1022) - 52 = 971" unfolding b by simp
  then show ?thesis
    unfolding fl_def Let_def a using v pos by (simp only: u_def [symmetric] if_True)
qed

text \<open>
  The doubles that the instances below meet: \<open>50 / 24\<close>, \<open>7 / 5\<close>, the literal
  \<^verbatim>\<open>1e-6\<close>, \<open>1 / 6\<close> and its inverse.
\<close>

lemma fl_25_12: "fl (25 / 12) = Num (4691249611844267 / 2 ^ 51)"
proof -
  have "fl (25 / 12) = Num (of_int 4691249611844267 * (1 / 2 ^ 51))"
    by (rule fl_pos_eval [where e = 1]) (simp_all add: round_even_def)
  then show ?thesis by simp
qed

lemma fl_7_5: "fl (7 / 5) = Num (6305039478318694 / 2 ^ 52)"
proof -
  have "fl (7 / 5) = Num (of_int 6305039478318694 * (1 / 2 ^ 52))"
    by (rule fl_pos_eval [where e = 0]) (simp_all add: round_even_def)
  then show ?thesis by simp
qed

lemma fl_micro: "fl (1 / 10 ^ 6) = Num (4722366482869645 / 2 ^ 72)"
proof -
  have "fl (1 / 10 ^ 6) = Num (of_int 4722366482869645 * (1 / 2 ^ 72))"
    by (rule fl_pos_eval [where e = "-20"]) (simp_all add: round_even_def)
  then show ?thesis by simp
qed

lemma fl_1_6: "fl (1 / 6) = Num (6004799503160661 / 2 ^ 55)"
proof -
  have "fl (1 / 6) = Num (of_int 6004799503160661 * (1 / 2 ^ 55))"
    by (rule fl_pos_eval [where e = "-3"]) (simp_all add: round_even_def)
  then show ?thesis by simp
qed

lemma fl_inverse_1_6: "fl (1 / (6004799503160661 / 2 ^ 55)) = Num 6"
proof -
  have "fl (1 / (6004799503160661 / 2 ^ 55)) = Num (of_int 6755399441055744 * (1 / 2 ^ 50))"
    by (rule fl_pos_eval [where e = 2]) (simp_all add: round_even_def)
  then show ?thesis by simp
qed

section \<open>Completion estimate\<close>

lemma estimate_unfold:
  "estimate now avg latestCount =
     (if positive avg \<and> positive (fl (TARGET_SIGNUPS - latestCount)) then
        (Some (js_Date (num_add (real_of_int now)
           (num_mul (num_mul (num_mul (num_quot (fl (TARGET_SIGNUPS - latestCount)) avg) 60) 60) 1000))),
         js_ceil (num_div (num_quot (fl (TARGET_SIGNUPS - latestCount)) avg) 24))
      else (None, Num 0))"
  by (simp only: estimate_def Let_def)

lemma positive_fl_int:
  fixes k :: int
  assumes "\<bar>5000 - k\<bar> < 2 ^ 53"
  shows "positive (fl (TARGET_SIGNUPS - of_int k)) \<longleftrightarrow> k < 5000"
proof -
  have "TARGET_SIGNUPS - real_of_int k = real_of_int (5000 - k)" by (simp add: TARGET_SIGNUPS_def)
  then have "fl (TARGET_SIGNUPS - real_of_int k) = Num (real_of_int (5000 - k))"
    using fl_of_int [OF assms] by simp
  then show ?thesis by simp
qed

lemma estimate_example:
  assumes "\<bar>real_of_int now + 180000000\<bar> \<le> 864 * 10 ^ 13"
  shows "estimate now (Num 10) 4500 = (Some (Num (real_of_int now + 180000000)), Num 3)"
proof -
  have r: "fl (TARGET_SIGNUPS - 4500) = Num 500" by (simp add: TARGET_SIGNUPS_def fl_numeral)
  have h: "num_quot (Num 500) (Num 10) = Num 50" by (simp add: fl_numeral)
  have d: "num_div (Num 50) 24 = Num (4691249611844267 / 2 ^ 51)" by (simp add: fl_25_12)
  have c: "js_ceil (Num (4691249611844267 / 2 ^ 51)) = Num 3"
  proof -
    have "\<lceil>(4691249611844267 / 2 ^ 51 :: real)\<rceil> = 3" by (rule ceiling_unique) simp_all
    then show ?thesis by simp
  qed
  have m: "num_mul (num_mul (num_mul (Num 50) 60) 60) 1000 = Num 180000000"
    by (simp add: fl_numeral)
  have b: "\<bar>now + 180000000\<bar> < 2 ^ 53"
  proof -
    have "real_of_int \<bar>now + 180000000\<bar> \<le> 864 * 10 ^ 13" using assms by simp
    also have "\<dots> < real_of_int (2 ^ 53)" by simp
    finally show ?thesis by (simp only: of_int_less_iff)
  qed
  have s: "num_add (real_of_int now) (Num 180000000) = Num (real_of_int now + 180000000)"
    using fl_of_int [OF b] by simp
  have t: "js_Date (Num (real_of_int now + 180000000)) = Num (real_of_int now + 180000000)"
  proof -
    have "real_of_int now + 180000000 = real_of_int (now + 180000000)" by simp
    then have "\<lfloor>real_of_int now + 180000000\<rfloor> = now + 180000000"
      "\<lceil>real_of_int now + 180000000\<rceil> = now + 180000000"
      by (simp_all only: floor_of_int ceiling_of_int)
    then show ?thesis using assms by simp
  qed
  have "positive (Num 10) \<and> positive (Num 500)" by simp
  then show ?thesis unfolding estimate_unfold r h d c m s t by (simp only: if_True simp_thms)
qed

text \<open>
  Two series on which the rounding of doubles decides the outcome. On
  \<open>(0, 4825), (5 h, 4832)\<close> the average rate is the double below \<open>7 / 5\<close>, so
  \<open>168 / averagePerHour\<close> is the double above 120 and the day count is 6, where exact
  arithmetic gives 5. On \<open>(0, 4950), (10 min, 4951)\<close> at \<open>now = 10 min\<close> the sum
  \<open>now + hoursRemaining * 60 * 60 * 1000\<close> is the double below \<open>30000000\<close>, which the
  \<^verbatim>\<open>Date\<close> truncates to \<open>29999999\<close>.
\<close>

lemma days_rounding_instance:
  "snd (estimate now (Num (6305039478318694 / 2 ^ 52)) 4832) = Num 6"
proof -
  have r: "fl (TARGET_SIGNUPS - 4832) = Num 168" by (simp add: TARGET_SIGNUPS_def fl_numeral)
  have h: "num_quot (Num 168) (Num (6305039478318694 / 2 ^ 52)) =
      Num (of_int 8444249301319681 * (1 / 2 ^ 46))"
  proof -
    have "fl (168 / (6305039478318694 / 2 ^ 52)) = Num (of_int 8444249301319681 * (1 / 2 ^ 46))"
      by (rule fl_pos_eval [where e = 6]) (simp_all add: round_even_def)
    then show ?thesis by simp
  qed
  have d: "num_div (Num (of_int 8444249301319681 * (1 / 2 ^ 46))) 24 =
      Num (of_int 5629499534213121 * (1 / 2 ^ 50))"
    unfolding num_div.simps
    by (rule fl_pos_eval [where e = 2]) (simp_all add: round_even_def)
  have c: "js_ceil (Num (of_int 5629499534213121 * (1 / 2 ^ 50))) = Num 6"
  proof -
    have "\<lceil>(of_int 5629499534213121 * (1 / 2 ^ 50) :: real)\<rceil> = 6"
      by (rule ceiling_unique) simp_all
    then show ?thesis by simp
  qed
  have g: "positive (Num (6305039478318694 / 2 ^ 52)) \<and> positive (Num 168)" by simp
  show ?thesis unfolding estimate_unfold r h d c using g by (simp only: if_True simp_thms snd_conv)
qed

lemma date_rounding_instance:
  "estimate 600000 (Num 6) 4951 = (Some (Num 29999999), Num 1)"
proof -
  have r: "fl (TARGET_SIGNUPS - 4951) = Num 49" by (simp add: TARGET_SIGNUPS_def fl_numeral)
  have h: "num_quot (Num 49) (Num 6) = Num (of_int 4597424619607381 * (1 / 2 ^ 49))"
  proof -
    have "fl (49 / 6) = Num (of_int 4597424619607381 * (1 / 2 ^ 49))"
      by (rule fl_pos_eval [where e = 3]) (simp_all add: round_even_def)
    then show ?thesis by simp
  qed
  have d: "num_div (Num (of_int 4597424619607381 * (1 / 2 ^ 49))) 24 =
      Num (of_int 6129899492809841 * (1 / 2 ^ 54))"
    unfolding num_div.simps
    by (rule fl_pos_eval [where e = "-2"]) (simp_all add: round_even_def)
  have c: "js_ceil (Num (of_int 6129899492809841 * (1 / 2 ^ 54))) = Num 1"
  proof -
    have "\<lceil>(of_int 6129899492809841 * (1 / 2 ^ 54) :: real)\<rceil> = 1"
      by (rule ceiling_unique) simp_all
    then show ?thesis by simp
  qed
  have m1: "num_mul (Num (of_int 4597424619607381 * (1 / 2 ^ 49))) 60 =
      Num (of_int 8620171161763839 * (1 / 2 ^ 44))"
    unfolding num_mul.simps
    by (rule fl_pos_eval [where e = 8]) (simp_all add: round_even_def)
  have m2: "num_mul (Num (of_int 8620171161763839 * (1 / 2 ^ 44))) 60 =
      Num (of_int 8081410464153599 * (1 / 2 ^ 38))"
    unfolding num_mul.simps
    by (rule fl_pos_eval [where e = 14]) (simp_all add: round_even_def)
  have m3: "num_mul (Num (of_int 8081410464153599 * (1 / 2 ^ 38))) 1000 =
      Num (of_int 7892002406399999 * (1 / 2 ^ 28))"
    unfolding num_mul.simps
    by (rule fl_pos_eval [where e = 24]) (simp_all add: round_even_def)
  have s: "num_add (real_of_int 600000) (Num (of_int 7892002406399999 * (1 / 2 ^ 28))) =
      Num (of_int 8053063679999999 * (1 / 2 ^ 28))"
    unfolding num_add.simps
    by (rule fl_pos_eval [where e = 24]) (simp_all add: round_even_def)
  have t: "js_Date (Num (of_int 8053063679999999 * (1 / 2 ^ 28))) = Num 29999999"
  proof -
    have "\<lfloor>(of_int 8053063679999999 * (1 / 2 ^ 28) :: real)\<rfloor> = 29999999"
      by (rule floor_unique) simp_all
    then show ?thesis by simp
  qed
  have g: "positive (Num 6) \<and> positive (Num 49)" by simp
  show ?thesis unfolding estimate_unfold r h d c m1 m2 m3 s t using g
    by (simp only: if_True simp_thms)
qed

lemma avgPerHourNumber_rounded:
  "avgPerHourNumber \<lparr>timestamp = 0, count = 4825\<rparr> \<lparr>timestamp = 18000000, count = 4832\<rparr> =
     Num (6305039478318694 / 2 ^ 52)"
proof -
  have t: "fl (real_of_int (18000000 - 0)) = Num 18000000" by (simp add: fl_numeral)
  have h: "num_div (Num 18000000) (1000 * 60 * 60) = Num 5" by (simp add: fl_numeral)
  have m: "num_max (Num 5) (fl (1 / 10 ^ 6)) = Num 5" unfolding fl_micro by simp
  have d: "fl (4832 - 4825) = Num 7" by (simp add: fl_numeral)
  have q: "num_quot (Num 7) (Num 5) = Num (6305039478318694 / 2 ^ 52)"
    using fl_7_5 by simp
  show ?thesis
    unfolding avgPerHourNumber_def Let_def DataPoint.simps t h m d q ..
qed

lemma avgPerHourNumber_six:
  "avgPerHourNumber \<lparr>timestamp = 0, count = 4950\<rparr> \<lparr>timestamp = 600000, count = 4951\<rparr> = Num 6"
proof -
  have t: "fl (real_of_int (600000 - 0)) = Num 600000" by (simp add: fl_numeral)
  have h: "num_div (Num 600000) (1000 * 60 * 60) = Num (6004799503160661 / 2 ^ 55)"
    using fl_1_6 by simp
  have m: "num_max (Num (6004799503160661 / 2 ^ 55)) (fl (1 / 10 ^ 6)) =
      Num (6004799503160661 / 2 ^ 55)" unfolding fl_micro by simp
  have d: "fl (4951 - 4950) = Num 1" using fl_of_int [of 1] by simp
  have q: "num_quot (Num 1) (Num (6004799503160661 / 2 ^ 55)) = Num 6"
    using fl_inverse_1_6 by simp
  show ?thesis
    unfolding avgPerHourNumber_def Let_def DataPoint.simps t h m d q ..
qed

lemma computeStats_estimate:
  assumes "1 < length allRows" "peakHourly allRows = Inr peak"
  shows "\<exists>s. computeStats now allRows = Inr (Some s) \<and>
    (estimatedCompletion s, daysRemaining s) =
      estimate now (avgPerHourNumber (allRows ! 0) (allRows ! (length allRows - 1)))
        (count (allRows ! (length allRows - 1)))"
  using assms by (simp add: computeStats_def Let_def split: prod.splits)

lemma peakHourly_two_rows:
  "peakHourly [\<lparr>timestamp = 0, count = 4825\<rparr>, \<lparr>timestamp = 18000000, count = 4832\<rparr>] =
     Inr (7 / 5)"
  "peakHourly [\<lparr>timestamp = 0, count = 4950\<rparr>, \<lparr>timestamp = 600000, count = 4951\<rparr>] = Inr 1"
  by (simp_all add: peakHourly_def interpCount_def elem_def bsearch.simps oneHourMs_def
        js_div_def)

lemma computeStats_days_rounding:
  "\<exists>s. computeStats now
          [\<lparr>timestamp = 0, count = 4825\<rparr>, \<lparr>timestamp = 18000000, count = 4832\<rparr>] =
        Inr (Some s) \<and> daysRemaining s = Num 6"
proof -
  let ?rows = "[\<lparr>timestamp = 0, count = 4825\<rparr>, \<lparr>timestamp = 18000000, count = 4832\<rparr>]"
  have l: "1 < length ?rows" by simp
  from computeStats_estimate [OF l peakHourly_two_rows(1), of now] obtain s where
    s: "computeStats now ?rows = Inr (Some s)"
    "(estimatedCompletion s, daysRemaining s) =
      estimate now (avgPerHourNumber (?rows ! 0) (?rows ! (length ?rows - 1)))
        (count (?rows ! (length ?rows - 1)))" by blast
  have "daysRemaining s = snd (estimate now (Num (6305039478318694 / 2 ^ 52)) 4832)"
  proof -
    have "(estimatedCompletion s, daysRemaining s) =
        estimate now (Num (6305039478318694 / 2 ^ 52)) 4832"
      using s(2) avgPerHourNumber_rounded by simp
    then show ?thesis by (metis snd_conv)
  qed
  then show ?thesis using s(1) days_rounding_instance [of now] by simp
qed

lemma computeStats_date_rounding:
  "\<exists>s. computeStats 600000
          [\<lparr>timestamp = 0, count = 4950\<rparr>, \<lparr>timestamp = 600000, count = 4951\<rparr>] =
        Inr (Some s) \<and> estimatedCompletion s = Some (Num 29999999) \<and> daysRemaining s = Num 1"
proof -
  let ?rows = "[\<lparr>timestamp = 0, count = 4950\<rparr>, \<lparr>timestamp = 600000, count = 4951\<rparr>]"
  have l: "1 < length ?rows" by simp
  from computeStats_estimate [OF l peakHourly_two_rows(2), of 600000] obtain s where
    s: "computeStats 600000 ?rows = Inr (Some s)"
    "(estimatedCompletion s, daysRemaining s) =
      estimate 600000 (avgPerHourNumber (?rows ! 0) (?rows ! (length ?rows - 1)))
        (count (?rows ! (length ?rows - 1)))" by blast
  have "(estimatedCompletion s, daysRemaining s) = estimate 600000 (Num 6) 4951"
    using s(2) by (simp add: avgPerHourNumber_six)
  then show ?thesis using s(1) date_rounding_instance by simp
qed

text \<open>
  Claim C7. \<open>estimatedCompletion\<close> and \<open>daysRemaining\<close> are computed exactly when the
  average rate is positive and \<open>remaining = 5000 - latest count\<close> is positive; then, every
  operation being the one of JavaScript on doubles, \<open>hoursRemaining\<close> is
  \<open>remaining / averagePerHour\<close>, \<open>daysRemaining\<close> is \<open>ceil(hoursRemaining / 24)\<close> and
  \<open>estimatedCompletion\<close> is the date \<open>now + hoursRemaining * 60 * 60 * 1000\<close>
  milliseconds, that is \<open>now + hoursRemaining\<close> hours; otherwise \<open>estimatedCompletion\<close>
  is absent and \<open>daysRemaining\<close> is 0. For an integer count below \<open>2^53\<close> in magnitude
  the test \<open>remaining > 0\<close> is \<open>count < 5000\<close>. With latest count 4500 and average rate
  10 the outcome is 3 days and \<open>now + 50 hours\<close>, for every \<open>now\<close> in the range of
  \<^verbatim>\<open>Date\<close>. The statistics snapshot of a series of two or more rows carries the estimate
  made from the average rate of the series in doubles; on the two series above it carries
  6 days, and the date \<open>29999999\<close> with 1 day.
\<close>

theorem estimate_completion:
  "(\<not> (positive avg \<and> positive (fl (TARGET_SIGNUPS - latestCount))) \<longrightarrow>
      estimate now avg latestCount = (None, Num 0)) \<and>
   (positive avg \<and> positive (fl (TARGET_SIGNUPS - latestCount)) \<longrightarrow>
      (\<exists>hoursRemaining. hoursRemaining = num_quot (fl (TARGET_SIGNUPS - latestCount)) avg \<and>
         estimate now avg latestCount =
           (Some (js_Date (num_add (real_of_int now)
                    (num_mul (num_mul (num_mul hoursRemaining 60) 60) 1000))),
            js_ceil (num_div hoursRemaining 24)))) \<and>
   (fst (estimate now avg latestCount) \<noteq> None \<longleftrightarrow>
      positive avg \<and> positive (fl (TARGET_SIGNUPS - latestCount))) \<and>
   (\<forall>k :: int. \<bar>5000 - k\<bar> < 2 ^ 53 \<longrightarrow>
      (positive (fl (TARGET_SIGNUPS - real_of_int k)) \<longleftrightarrow> k < 5000)) \<and>
   TARGET_SIGNUPS = 5000 \<and>
   (\<bar>real_of_int now + 180000000\<bar> \<le> 864 * 10 ^ 13 \<longrightarrow>
      estimate now (Num 10) 4500 = (Some (Num (real_of_int now + 50 * 3600000)), Num 3)) \<and>
   (1 < length allRows \<and> peakHourly allRows = Inr peak \<longrightarrow>
      (\<exists>s. computeStats now allRows = Inr (Some s) \<and>
         (estimatedCompletion s, daysRemaining s) =
           estimate now (avgPerHourNumber (allRows ! 0) (allRows ! (length allRows - 1)))
             (count (allRows ! (length allRows - 1))))) \<and>
   (\<exists>s. computeStats now
          [\<lparr>timestamp = 0, count = 4825\<rparr>, \<lparr>timestamp = 18000000, count = 4832\<rparr>] =
        Inr (Some s) \<and> daysRemaining s = Num 6) \<and>
   (\<exists>s. computeStats 600000
          [\<lparr>timestamp = 0, count = 4950\<rparr>, \<lparr>timestamp = 600000, count = 4951\<rparr>] =
        Inr (Some s) \<and> estimatedCompletion s = Some (Num 29999999) \<and> daysRemaining s = Num 1)"
proof (intro conjI impI allI)
  show "estimate now avg latestCount = (None, Num 0)"
    if "\<not> (positive avg \<and> positive (fl (TARGET_SIGNUPS - latestCount)))"
    using that unfolding estimate_unfold by (simp only: if_False)
  show "\<exists>hoursRemaining. hoursRemaining = num_quot (fl (TARGET_SIGNUPS - latestCount)) avg \<and>
         estimate now avg latestCount =
           (Some (js_Date (num_add (real_of_int now)
                    (num_mul (num_mul (num_mul hoursRemaining 60) 60) 1000))),
            js_ceil (num_div hoursRemaining 24))"
    if "positive avg \<and> positive (fl (TARGET_SIGNUPS - latestCount))"
    using that unfolding estimate_unfold by (simp only: if_True simp_thms)
  show "fst (estimate now avg latestCount) \<noteq> None \<longleftrightarrow>
      positive avg \<and> positive (fl (TARGET_SIGNUPS - latestCount))"
    unfolding estimate_unfold by simp
  show "positive (fl (TARGET_SIGNUPS - real_of_int k)) \<longleftrightarrow> k < 5000"
    if "\<bar>5000 - k\<bar> < 2 ^ 53" for k :: int
    using that by (rule positive_fl_int)
  show "TARGET_SIGNUPS = 5000" by (simp add: TARGET_SIGNUPS_def)
  show "estimate now (Num 10) 4500 = (Some (Num (real_of_int now + 50 * 3600000)), Num 3)"
    if "\<bar>real_of_int now + 180000000\<bar> \<le> 864 * 10 ^ 13"
    using estimate_example [OF that] by simp
  show "\<exists>s. computeStats now allRows = Inr (Some s) \<and>
         (estimatedCompletion s, daysRemaining s) =
           estimate now (avgPerHourNumber (allRows ! 0) (allRows ! (length allRows - 1)))
             (count (allRows ! (length allRows - 1)))"
    if "1 < length allRows \<and> peakHourly allRows = Inr peak"
    using that computeStats_estimate [of allRows peak now] by blast
  show "\<exists>s. computeStats now
          [\<lparr>timestamp = 0, count = 4825\<rparr>, \<lparr>timestamp = 18000000, count = 4832\<rparr>] =
        Inr (Some s) \<and> daysRemaining s = Num 6"
    by (rule computeStats_days_rounding)
  show "\<exists>s. computeStats 600000
          [\<lparr>timestamp = 0, count = 4950\<rparr>, \<lparr>timestamp = 600000, count = 4951\<rparr>] =
        Inr (Some s) \<and> estimatedCompletion s = Some (Num 29999999) \<and> daysRemaining s = Num 1"
    by (rule computeStats_date_rounding)
qed

text \<open>
  Instances of C7: average rate the double of \<open>7 / 5\<close> with latest count 4832; average
  rate 10 with latest count 4500 at \<open>now = 10 h\<close>; and the three-sample scenario.
\<close>

theorem estimate_completion_witness:
  "positive (Num (6305039478318694 / 2 ^ 52)) \<and> positive (fl (TARGET_SIGNUPS - 4832)) \<and>
   fst (estimate 18000000 (Num (6305039478318694 / 2 ^ 52)) 4832) \<noteq> None \<and>
   snd (estimate 18000000 (Num (6305039478318694 / 2 ^ 52)) 4832) = Num 6 \<and>
   \<bar>real_of_int 36000000 + 180000000\<bar> \<le> 864 * 10 ^ 13 \<and>
   estimate 36000000 (Num 10) 4500 = (Some (Num 216000000), Num 3) \<and>
   1 < length (scenario 0) \<and> peakHourly (scenario 0) = Inr 30 \<and>
   (\<exists>s. computeStats 5400000 (scenario 0) = Inr (Some s) \<and>
      (estimatedCompletion s, daysRemaining s) =
        estimate 5400000 (avgPerHourNumber (scenario 0 ! 0) (scenario 0 ! 2)) 40)"
proof -
  have r: "fl (TARGET_SIGNUPS - 4832) = Num 168" by (simp add: TARGET_SIGNUPS_def fl_numeral)
  have g: "positive (Num (6305039478318694 / 2 ^ 52)) \<and> positive (fl (TARGET_SIGNUPS - 4832))"
    unfolding r by simp
  have b: "\<bar>real_of_int 36000000 + 180000000\<bar> \<le> 864 * 10 ^ 13" by simp
  have p: "1 < length (scenario 0) \<and> peakHourly (scenario 0) = Inr 30"
    by (simp add: peakHourly_def scenario_def interpCount_def elem_def bsearch.simps oneHourMs_def)
  from estimate_completion [of "Num (6305039478318694 / 2 ^ 52)" 4832 18000000] g
  have "fst (estimate 18000000 (Num (6305039478318694 / 2 ^ 52)) 4832) \<noteq> None" by blast
  moreover from estimate_completion [of "Num 10" 4500 36000000] b
  have "estimate 36000000 (Num 10) 4500 = (Some (Num (real_of_int 36000000 + 50 * 3600000)), Num 3)"
    by blast
  then have "estimate 36000000 (Num 10) 4500 = (Some (Num 216000000), Num 3)" by simp
  moreover from estimate_completion [of _ _ 5400000 "scenario 0" 30] p
  have "\<exists>s. computeStats 5400000 (scenario 0) = Inr (Some s) \<and>
      (estimatedCompletion s, daysRemaining s) =
        estimate 5400000 (avgPerHourNumber (scenario 0 ! 0)
          (scenario 0 ! (length (scenario 0) - 1))) (count (scenario 0 ! (length (scenario 0) - 1)))"
    by blast
  then have "\<exists>s. computeStats 5400000 (scenario 0) = Inr (Some s) \<and>
      (estimatedCompletion s, daysRemaining s) =
        estimate 5400000 (avgPerHourNumber (scenario 0 ! 0) (scenario 0 ! 2)) 40"
    by (simp add: scenario_def)
  ultimately show ?thesis using g b p days_rounding_instance [of 18000000] by blast
qed

section \<open>Resampler\<close>

lemma js_round_ge_1: "1 \<le> x \<Longrightarrow> 1 \<le> js_round x"
  unfolding js_round_def by linarith

lemma js_round_bounds:
  assumes "0 < d"
  shows "2 * a - d < 2 * js_round (real_of_int a / real_of_int d) * d"
    and "2 * js_round (real_of_int a / real_of_int d) * d \<le> 2 * a + d"
proof -
  define r where "r = js_round (real_of_int a / real_of_int d)"
  have d: "0 < real_of_int d" using assms by simp
  have "real_of_int r \<le> real_of_int a / real_of_int d + 1 / 2"
    unfolding r_def js_round_def by linarith
  then have "real_of_int r * real_of_int d \<le> (real_of_int a / real_of_int d + 1 / 2) * real_of_int d"
    using d by (intro mult_right_mono) simp_all
  also have "\<dots> = real_of_int a + real_of_int d / 2" using d by (simp add: field_simps)
  finally have "real_of_int (2 * r * d) \<le> real_of_int (2 * a + d)" by simp
  then show "2 * js_round (real_of_int a / real_of_int d) * d \<le> 2 * a + d"
    unfolding r_def [symmetric] by (simp only: of_int_le_iff)
  have "real_of_int a / real_of_int d + 1 / 2 < real_of_int r + 1"
    unfolding r_def js_round_def by linarith
  then have "(real_of_int a / real_of_int d + 1 / 2) * real_of_int d < (real_of_int r + 1) * real_of_int d"
    using d by (intro mult_strict_right_mono) simp_all
  moreover have "(real_of_int a / real_of_int d + 1 / 2) * real_of_int d = real_of_int a + real_of_int d / 2"
    using d by (simp add: field_simps)
  ultimately have "real_of_int (2 * a - d) < real_of_int (2 * r * d)" by (simp add: algebra_simps)
  then show "2 * a - d < 2 * js_round (real_of_int a / real_of_int d) * d"
    unfolding r_def [symmetric] by (simp only: of_int_less_iff)
qed

lemma bucketMs_pos: "0 < bucketMs spanMs"
proof -
  have h: "0 < hour" "0 < day" "0 < minute" by (simp_all add: hour_def day_def minute_def)
  show ?thesis
  proof (cases "7 * day < spanMs")
    case False
    then show ?thesis using h by (simp add: bucketMs_def)
  next
    case True
    define b where "b = max \<lceil>real_of_int spanMs / real_of_int TARGET_POINTS\<rceil> hour"
    define H where "H = js_round (real_of_int b / real_of_int hour)"
    have "hour \<le> b" by (simp add: b_def)
    then have "1 \<le> real_of_int b / real_of_int hour" using h by (simp add: le_divide_eq)
    then have H1: "1 \<le> H" unfolding H_def by (rule js_round_ge_1)
    have c: "\<not> spanMs \<le> hour" "\<not> spanMs \<le> day" "\<not> spanMs \<le> 7 * day"
      using True by (simp_all add: hour_def day_def minute_def)
    have eq: "bucketMs spanMs = (if H \<le> 24 then H * hour
          else max 1 (js_round (real_of_int H / 24)) * day)"
      unfolding bucketMs_def Let_def b_def H_def using c by simp
    show ?thesis unfolding eq using H1 h by simp
  qed
qed

lemma bucketMs_long:
  assumes "7 * day < spanMs"
  defines "b \<equiv> max \<lceil>real_of_int spanMs / 240\<rceil> hour"
  defines "H \<equiv> js_round (real_of_int b / real_of_int hour)"
  shows "bucketMs spanMs = (if H \<le> 24 then H * hour else js_round (real_of_int H / 24) * day)"
    and "1 \<le> H"
proof -
  have c: "\<not> spanMs \<le> hour" "\<not> spanMs \<le> day" "\<not> spanMs \<le> 7 * day"
    using assms(1) by (simp_all add: hour_def day_def minute_def)
  have h: "0 < hour" by (simp add: hour_def minute_def)
  have "hour \<le> b" by (simp add: b_def)
  then have "1 \<le> real_of_int b / real_of_int hour" using h by (simp add: le_divide_eq)
  then show H1: "1 \<le> H" unfolding H_def by (rule js_round_ge_1)
  have "24 < H \<Longrightarrow> 1 \<le> js_round (real_of_int H / 24)"
    by (rule js_round_ge_1) simp
  then have "24 < H \<Longrightarrow> max 1 (js_round (real_of_int H / 24)) = js_round (real_of_int H / 24)"
    by simp
  then show "bucketMs spanMs = (if H \<le> 24 then H * hour else js_round (real_of_int H / 24) * day)"
    unfolding bucketMs_def Let_def b_def H_def TARGET_POINTS_def using c by simp
qed

lemma bucketMs_ten_days: "bucketMs (10 * day) = hour"
  by (simp add: bucketMs_def day_def hour_def minute_def TARGET_POINTS_def js_round_def)

lemma bucketsFrom_step:
  assumes "0 < width" "t \<le> lastTs"
  shows "bucketsFrom t lastTs width = Suc (bucketsFrom (t + width) lastTs width)"
proof (cases "t + width \<le> lastTs")
  case True
  have "(lastTs - t) div width = (lastTs - (t + width)) div width + 1"
  proof -
    have "lastTs - t = (lastTs - (t + width)) + 1 * width" by simp
    then have "(lastTs - t) div width = ((lastTs - (t + width)) + 1 * width) div width" by simp
    also have "\<dots> = (lastTs - (t + width)) div width + 1"
      using assms(1) by (subst div_mult_self1) simp_all
    finally show ?thesis .
  qed
  moreover have "0 \<le> (lastTs - (t + width)) div width"
    using True assms(1) by (simp add: pos_imp_zdiv_nonneg_iff)
  ultimately show ?thesis using True assms by (simp add: bucketsFrom_def nat_add_distrib)
next
  case False
  then have "(lastTs - t) div width = 0" using assms by (simp add: div_pos_pos_trivial)
  then show ?thesis using False assms by (simp add: bucketsFrom_def)
qed

lemma starts_step:
  assumes "0 < width" "t \<le> lastTs"
  shows "starts t lastTs width = t # starts (t + width) lastTs width"
proof -
  have "map (\<lambda>k. t + int k * width) [0..<Suc n] = t # map (\<lambda>k. (t + width) + int k * width) [0..<n]" for n
    by (simp add: upt_conv_Cons map_Suc_upt [symmetric] algebra_simps del: upt_Suc)
  then show ?thesis unfolding starts_def bucketsFrom_step [OF assms] by simp
qed

lemma starts_done: "\<not> t \<le> lastTs \<Longrightarrow> starts t lastTs width = []"
  by (simp add: starts_def bucketsFrom_def)

lemma resampleLoop_walk:
  assumes "0 < width"
  shows "resampleLoop points lastTs width t j acc =
         Some (acc @ walk points width (starts t lastTs width) j)"
proof (induction "nat (lastTs - t + 1)" arbitrary: t j acc rule: less_induct)
  case less
  show ?case
  proof (cases "t \<le> lastTs")
    case False
    then show ?thesis by (subst resampleLoop.simps) (simp add: starts_done)
  next
    case True
    have m: "nat (lastTs - (t + width) + 1) < nat (lastTs - t + 1)"
      using True assms by simp
    show ?thesis
      by (subst resampleLoop.simps)
         (simp add: True starts_step [OF assms True] Let_def less [OF m])
  qed
qed

lemma resampleTrace_walk:
  assumes "points \<noteq> []"
  shows "resampleTrace points =
    Some (walk points (bucketMs (timestamp (points ! (length points - 1)) - timestamp (points ! 0)))
            (starts (timestamp (points ! 0)) (timestamp (points ! (length points - 1)))
               (bucketMs (timestamp (points ! (length points - 1)) - timestamp (points ! 0)))) 0)"
  using assms resampleLoop_walk [OF bucketMs_pos, of points _ _ _ 0 "[]"]
  by (simp add: resampleTrace_def Let_def)

lemma advance_ge: "j \<le> advance points s j"
proof (induction points s j rule: advance.induct)
  case (1 points s j)
  show ?case
  proof (cases "j < length points \<and> timestamp (points ! j) < s")
    case True
    then have "advance points s j = advance points s (j + 1)" by (subst advance.simps) simp
    with 1 True show ?thesis by simp
  next
    case False
    then have "advance points s j = j" by (subst advance.simps) auto
    then show ?thesis by simp
  qed
qed

lemma walk_length: "length (walk points w ss j) = length ss"
  by (induction ss arbitrary: j) (simp_all add: Let_def)

lemma walk_starts: "map (\<lambda>e. btimestamp (fst e)) (walk points w ss j) = ss"
  by (induction ss arbitrary: j) (simp_all add: Let_def)

lemma walk_entry:
  "(b, src) \<in> set (walk points w ss j) \<Longrightarrow>
     (case src of
        None \<Rightarrow> bcount b = None
      | Some i \<Rightarrow> j \<le> i \<and> i < length points \<and> btimestamp b \<le> timestamp (points ! i) \<and>
                 timestamp (points ! i) < btimestamp b + w \<and>
                 bcount b = Some (count (points ! i)))"
proof (induction ss arbitrary: j)
  case Nil
  then show ?case by simp
next
  case (Cons s ss)
  let ?j1 = "advance points s j"
  have ge: "j \<le> ?j1" by (rule advance_ge)
  show ?case
  proof (cases "?j1 < length points \<and> timestamp (points ! ?j1) \<ge> s \<and> timestamp (points ! ?j1) < s + w")
    case True
    then have "(b, src) = (\<lparr>btimestamp = s, bcount = Some (count (points ! ?j1))\<rparr>, Some ?j1)
       \<or> (b, src) \<in> set (walk points w ss (?j1 + 1))"
      using Cons.prems by (simp add: Let_def)
    then show ?thesis
    proof
      assume "(b, src) = (\<lparr>btimestamp = s, bcount = Some (count (points ! ?j1))\<rparr>, Some ?j1)"
      then show ?thesis using True ge by auto
    next
      assume "(b, src) \<in> set (walk points w ss (?j1 + 1))"
      from Cons.IH [OF this] show ?thesis using ge by (auto split: option.splits)
    qed
  next
    case False
    then have "(b, src) = (\<lparr>btimestamp = s, bcount = None\<rparr>, None)
       \<or> (b, src) \<in> set (walk points w ss ?j1)"
      using Cons.prems by (auto simp: Let_def)
    then show ?thesis
    proof
      assume "(b, src) = (\<lparr>btimestamp = s, bcount = None\<rparr>, None)"
      then show ?thesis by auto
    next
      assume "(b, src) \<in> set (walk points w ss ?j1)"
      from Cons.IH [OF this] show ?thesis using ge by (auto split: option.splits)
    qed
  qed
qed

lemma walk_src_ge:
  assumes "k < length ss" "snd (walk points w ss j ! k) = Some i"
  shows "j \<le> i"
proof -
  have "walk points w ss j ! k \<in> set (walk points w ss j)"
    using assms(1) by (simp add: walk_length)
  then have "(fst (walk points w ss j ! k), Some i) \<in> set (walk points w ss j)"
    using assms(2) by (metis prod.collapse)
  from walk_entry [OF this] show ?thesis by simp
qed

lemma walk_increasing:
  "k < k' \<Longrightarrow> k' < length ss \<Longrightarrow> snd (walk points w ss j ! k) = Some i \<Longrightarrow>
   snd (walk points w ss j ! k') = Some i' \<Longrightarrow> i < i'"
proof (induction ss arbitrary: j k k')
  case Nil
  then show ?case by simp
next
  case (Cons s ss)
  let ?j1 = "advance points s j"
  obtain m where k': "k' = Suc m" using Cons.prems(1) by (cases k') auto
  have m: "m < length ss" using Cons.prems(2) k' by simp
  show ?case
  proof (cases "?j1 < length points \<and> timestamp (points ! ?j1) \<ge> s \<and> timestamp (points ! ?j1) < s + w")
    case True
    then have w: "walk points w (s # ss) j =
        (\<lparr>btimestamp = s, bcount = Some (count (points ! ?j1))\<rparr>, Some ?j1)
          # walk points w ss (?j1 + 1)"
      by (simp add: Let_def)
    have r: "snd (walk points w ss (?j1 + 1) ! m) = Some i'"
      using Cons.prems(4) unfolding w k' by simp
    show ?thesis
    proof (cases k)
      case 0
      then have "i = ?j1" using Cons.prems(3) unfolding w by simp
      moreover have "?j1 + 1 \<le> i'" by (rule walk_src_ge [OF m r])
      ultimately show ?thesis by simp
    next
      case (Suc n)
      then have "snd (walk points w ss (?j1 + 1) ! n) = Some i" using Cons.prems(3) unfolding w by simp
      moreover have "n < m" using Cons.prems(1) Suc k' by simp
      ultimately show ?thesis using Cons.IH [OF _ m _ r] by blast
    qed
  next
    case False
    then have w: "walk points w (s # ss) j =
        (\<lparr>btimestamp = s, bcount = None\<rparr>, None) # walk points w ss ?j1"
      by (auto simp: Let_def)
    have r: "snd (walk points w ss ?j1 ! m) = Some i'"
      using Cons.prems(4) unfolding w k' by simp
    show ?thesis
    proof (cases k)
      case 0
      then show ?thesis using Cons.prems(3) unfolding w by simp
    next
      case (Suc n)
      then have "snd (walk points w ss ?j1 ! n) = Some i" using Cons.prems(3) unfolding w by simp
      moreover have "n < m" using Cons.prems(1) Suc k' by simp
      ultimately show ?thesis using Cons.IH [OF _ m _ r] by blast
    qed
  qed
qed

text \<open>
  Claim C3. For a non-empty series ordered by time, the resampler returns, with exactly
  \<open>floor(span / width) + 1\<close> buckets, the bucket of index \<open>k\<close> starting at
  \<open>firstTs + k * width\<close>; a bucket that consumed the point \<open>i\<close> carries its count, and
  the point lies in the bucket's interval; no point is consumed by two buckets; and a
  bucket whose interval \<open>[start, start + width)\<close> contains no point has no count.
\<close>

theorem resample_buckets:
  assumes ne: "points \<noteq> []" and srt: "sorted (map timestamp points)"
  defines "firstTs \<equiv> timestamp (points ! 0)"
    and "lastTs \<equiv> timestamp (points ! (length points - 1))"
  defines "width \<equiv> bucketMs (lastTs - firstTs)"
  shows "\<exists>tr. resampleTrace points = Some tr \<and> resampleTimeSeries points = Some (map fst tr) \<and>
    length tr = nat ((lastTs - firstTs) div width) + 1 \<and> 0 < width \<and>
    (\<forall>k < length tr. btimestamp (fst (tr ! k)) = firstTs + int k * width) \<and>
    (\<forall>k < length tr. \<forall>i. snd (tr ! k) = Some i \<longrightarrow>
        i < length points \<and> bcount (fst (tr ! k)) = Some (count (points ! i)) \<and>
        btimestamp (fst (tr ! k)) \<le> timestamp (points ! i) \<and>
        timestamp (points ! i) < btimestamp (fst (tr ! k)) + width) \<and>
    (\<forall>k < length tr. snd (tr ! k) = None \<longrightarrow> bcount (fst (tr ! k)) = None) \<and>
    (\<forall>k < length tr. \<forall>k' < length tr. \<forall>i.
        snd (tr ! k) = Some i \<and> snd (tr ! k') = Some i \<longrightarrow> k = k') \<and>
    (\<forall>k < length tr.
        (\<forall>i < length points. \<not> (btimestamp (fst (tr ! k)) \<le> timestamp (points ! i) \<and>
                                  timestamp (points ! i) < btimestamp (fst (tr ! k)) + width))
        \<longrightarrow> bcount (fst (tr ! k)) = None)"
proof -
  have wpos: "0 < width" unfolding width_def by (rule bucketMs_pos)
  have le: "firstTs \<le> lastTs"
    unfolding firstTs_def lastTs_def
    using sorted_nth_mono [OF srt, of 0 "length points - 1"] ne by simp
  define ss where "ss = starts firstTs lastTs width"
  define tr where "tr = walk points width ss 0"
  have "resampleTrace points = resampleLoop points lastTs width firstTs 0 []"
    using ne by (simp add: resampleTrace_def Let_def firstTs_def lastTs_def width_def)
  then have tr: "resampleTrace points = Some tr"
    using resampleLoop_walk [OF wpos, of points lastTs firstTs 0 "[]"]
    by (simp add: tr_def ss_def)
  have len: "length tr = nat ((lastTs - firstTs) div width) + 1"
    using le by (simp add: tr_def walk_length ss_def starts_def bucketsFrom_def)
  have lss: "length ss = length tr" by (simp add: tr_def walk_length)
  have st: "btimestamp (fst (tr ! k)) = firstTs + int k * width" if "k < length tr" for k
  proof -
    have "map (\<lambda>e. btimestamp (fst e)) tr ! k = ss ! k" by (simp add: tr_def walk_starts)
    moreover have "ss ! k = firstTs + int k * width"
      using that lss by (simp add: ss_def starts_def)
    ultimately show ?thesis using that by simp
  qed
  have entry: "case snd (tr ! k) of
        None \<Rightarrow> bcount (fst (tr ! k)) = None
      | Some i \<Rightarrow> 0 \<le> i \<and> i < length points \<and> btimestamp (fst (tr ! k)) \<le> timestamp (points ! i) \<and>
                 timestamp (points ! i) < btimestamp (fst (tr ! k)) + width \<and>
                 bcount (fst (tr ! k)) = Some (count (points ! i))" if "k < length tr" for k
  proof -
    have "(fst (tr ! k), snd (tr ! k)) \<in> set (walk points width ss 0)"
      using that by (simp add: tr_def)
    from walk_entry [OF this] show ?thesis .
  qed
  have inj: "k = k'" if "k < length tr" "k' < length tr" "snd (tr ! k) = Some i"
    "snd (tr ! k') = Some i" for k k' i
  proof (rule ccontr)
    assume "k \<noteq> k'"
    then consider "k < k'" | "k' < k" by linarith
    then show False
    proof cases
      case 1
      from walk_increasing [OF 1, of ss points width 0 i i] that lss show False
        by (simp add: tr_def)
    next
      case 2
      from walk_increasing [OF 2, of ss points width 0 i i] that lss show False
        by (simp add: tr_def)
    qed
  qed
  have gap: "bcount (fst (tr ! k)) = None"
    if "k < length tr"
      "\<forall>i < length points. \<not> (btimestamp (fst (tr ! k)) \<le> timestamp (points ! i) \<and>
                                  timestamp (points ! i) < btimestamp (fst (tr ! k)) + width)" for k
    using entry [OF that(1)] that(2) by (cases "snd (tr ! k)") auto
  show ?thesis
  proof (intro exI [of _ tr] conjI allI impI)
    show "resampleTrace points = Some tr" by (rule tr)
    show "resampleTimeSeries points = Some (map fst tr)" by (simp add: resampleTimeSeries_def tr)
    show "length tr = nat ((lastTs - firstTs) div width) + 1" by (rule len)
    show "0 < width" by (rule wpos)
  next
    fix k assume "k < length tr" then show "btimestamp (fst (tr ! k)) = firstTs + int k * width"
      by (rule st)
  next
    fix k i assume k: "k < length tr" and s: "snd (tr ! k) = Some i"
    from entry [OF k] s show "i < length points" by simp
    from entry [OF k] s show "bcount (fst (tr ! k)) = Some (count (points ! i))" by simp
    from entry [OF k] s show "btimestamp (fst (tr ! k)) \<le> timestamp (points ! i)" by simp
    from entry [OF k] s show "timestamp (points ! i) < btimestamp (fst (tr ! k)) + width" by simp
  next
    fix k assume k: "k < length tr" and s: "snd (tr ! k) = None"
    from entry [OF k] s show "bcount (fst (tr ! k)) = None" by simp
  next
    fix k k' i assume "k < length tr" "k' < length tr" "snd (tr ! k) = Some i \<and> snd (tr ! k') = Some i"
    then show "k = k'" using inj by blast
  next
    fix k assume "k < length tr"
      "\<forall>i < length points. \<not> (btimestamp (fst (tr ! k)) \<le> timestamp (points ! i) \<and>
                                  timestamp (points ! i) < btimestamp (fst (tr ! k)) + width)"
    then show "bcount (fst (tr ! k)) = None" by (rule gap)
  qed
qed

text \<open>
  An instance of C3: three points spanning 140 seconds give three one-minute buckets.
\<close>

theorem resample_buckets_witness:
  "threeRows \<noteq> [] \<and> sorted (map timestamp threeRows) \<and>
   (\<exists>tr. resampleTrace threeRows = Some tr \<and> length tr = 3)"
proof -
  have h: "threeRows \<noteq> []" "sorted (map timestamp threeRows)"
    by (simp_all add: threeRows_def)
  have w: "bucketMs (timestamp (threeRows ! (length threeRows - 1)) - timestamp (threeRows ! 0))
      = 60000"
    by (simp add: threeRows_def bucketMs_def hour_def minute_def)
  have n: "nat ((timestamp (threeRows ! (length threeRows - 1)) - timestamp (threeRows ! 0))
        div 60000) + 1 = 3"
    by (simp add: threeRows_def)
  from resample_buckets [OF h] obtain tr where
    "resampleTrace threeRows = Some tr"
    "length tr = nat ((timestamp (threeRows ! (length threeRows - 1)) - timestamp (threeRows ! 0))
        div bucketMs (timestamp (threeRows ! (length threeRows - 1)) - timestamp (threeRows ! 0))) + 1"
    by blast
  then show ?thesis using h unfolding w n by blast
qed

text \<open>
  Claim C4, as stated, fails: at a span of 356 days \<open>ceil(S / 240)\<close> is 35.6 hours, whose
  nearest whole day is one day, but the code first rounds to 36 hours and then rounds
  \<open>36 / 24 = 1.5\<close> up to two days.
\<close>

theorem bucketMs_counterexample:
  "bucketMs (356 * day) = 2 * day \<and> spec_bucket_width (356 * day) = day"
  by (simp add: bucketMs_def spec_bucket_width_def day_def hour_def minute_def
      TARGET_POINTS_def js_round_def)

text \<open>
  Claim C4, amended. The bucket width depends on the span \<open>S\<close> alone: 1 minute when
  \<open>S \<le> 1 hour\<close>, 10 minutes when \<open>S \<le> 1 day\<close>, 1 hour when \<open>S \<le> 7 days\<close>; above
  7 days, with \<open>H\<close> the whole number of hours nearest to \<open>max(ceil(S / 240), 1 hour)\<close>
  (a tie going up), the width is \<open>H\<close> hours when \<open>H \<le> 24\<close> and otherwise \<open>D\<close> days,
  \<open>D\<close> being the whole number nearest to \<open>H / 24\<close> (a tie going up). A span of 10 days
  gives a width of 1 hour, and every series of that span gives 241 buckets.
\<close>

theorem bucketMs_by_span:
  "(spanMs \<le> hour \<longrightarrow> bucketMs spanMs = minute) \<and>
   (hour < spanMs \<and> spanMs \<le> day \<longrightarrow> bucketMs spanMs = 10 * minute) \<and>
   (day < spanMs \<and> spanMs \<le> 7 * day \<longrightarrow> bucketMs spanMs = hour) \<and>
   (7 * day < spanMs \<longrightarrow>
      (\<exists>H. 2 * max \<lceil>real_of_int spanMs / 240\<rceil> hour - hour < 2 * H * hour \<and>
            2 * H * hour \<le> 2 * max \<lceil>real_of_int spanMs / 240\<rceil> hour + hour \<and>
            (H \<le> 24 \<longrightarrow> bucketMs spanMs = H * hour) \<and>
            (24 < H \<longrightarrow> (\<exists>D. 2 * H - 24 < 2 * D * 24 \<and> 2 * D * 24 \<le> 2 * H + 24 \<and>
                               bucketMs spanMs = D * day)))) \<and>
   bucketMs (10 * day) = hour \<and>
   (\<forall>points. points \<noteq> [] \<and>
        timestamp (points ! (length points - 1)) - timestamp (points ! 0) = 10 * day \<longrightarrow>
        (\<exists>buckets. resampleTimeSeries points = Some buckets \<and> length buckets = 241))"
proof (intro conjI impI allI)
  show "spanMs \<le> hour \<Longrightarrow> bucketMs spanMs = minute" by (simp add: bucketMs_def)
  show "hour < spanMs \<and> spanMs \<le> day \<Longrightarrow> bucketMs spanMs = 10 * minute"
    by (simp add: bucketMs_def)
  show "day < spanMs \<and> spanMs \<le> 7 * day \<Longrightarrow> bucketMs spanMs = hour"
    by (simp add: bucketMs_def day_def hour_def minute_def)
  show "bucketMs (10 * day) = hour" by (rule bucketMs_ten_days)
next
  assume long: "7 * day < spanMs"
  define b where "b = max \<lceil>real_of_int spanMs / 240\<rceil> hour"
  define H where "H = js_round (real_of_int b / real_of_int hour)"
  define D where "D = js_round (real_of_int H / real_of_int 24)"
  have h: "0 < hour" by (simp add: hour_def minute_def)
  note eq = bucketMs_long [OF long, folded b_def, folded H_def]
  have "2 * b - hour < 2 * H * hour" "2 * H * hour \<le> 2 * b + hour"
    unfolding H_def by (rule js_round_bounds [OF h])+
  moreover have "H \<le> 24 \<longrightarrow> bucketMs spanMs = H * hour" using eq(1) by simp
  moreover have "2 * H - 24 < 2 * D * 24" "2 * D * 24 \<le> 2 * H + 24"
    unfolding D_def by (rule js_round_bounds, simp)+
  moreover have "24 < H \<longrightarrow> bucketMs spanMs = D * day" using eq(1) by (simp add: D_def)
  ultimately show "\<exists>H. 2 * max \<lceil>real_of_int spanMs / 240\<rceil> hour - hour < 2 * H * hour \<and>
            2 * H * hour \<le> 2 * max \<lceil>real_of_int spanMs / 240\<rceil> hour + hour \<and>
            (H \<le> 24 \<longrightarrow> bucketMs spanMs = H * hour) \<and>
            (24 < H \<longrightarrow> (\<exists>D. 2 * H - 24 < 2 * D * 24 \<and> 2 * D * 24 \<le> 2 * H + 24 \<and>
                               bucketMs spanMs = D * day))"
    unfolding b_def [symmetric] by blast
next
  fix points :: "DataPoint list"
  assume a: "points \<noteq> [] \<and>
        timestamp (points ! (length points - 1)) - timestamp (points ! 0) = 10 * day"
  then have le: "timestamp (points ! 0) \<le> timestamp (points ! (length points - 1))"
    by (simp add: day_def hour_def minute_def)
  have "length (walk points hour (starts (timestamp (points ! 0))
          (timestamp (points ! (length points - 1))) hour) 0) = 241"
    using a le by (simp add: walk_length starts_def bucketsFrom_def day_def hour_def minute_def)
  then show "\<exists>buckets. resampleTimeSeries points = Some buckets \<and> length buckets = 241"
    using a resampleTrace_walk [of points]
    by (simp add: resampleTimeSeries_def bucketMs_ten_days)
qed

text \<open>
  Instances of amended C4 at spans of one hour, one day, seven days and ten days.
\<close>

theorem bucketMs_by_span_witness:
  "hour < day \<and> day < 7 * day \<and> 7 * day < 30 * day \<and>
   bucketMs hour = minute \<and> bucketMs day = 10 * minute \<and> bucketMs (7 * day) = hour \<and>
   bucketMs (10 * day) = hour \<and> bucketMs (30 * day) = 3 * hour \<and>
   bucketMs (356 * day) = 2 * day"
proof -
  have c: "\<lceil>real_of_int (30 * day) / 240\<rceil> = 10800000"
    "\<lceil>real_of_int (356 * day) / 240\<rceil> = 128160000"
    by (simp_all add: day_def hour_def minute_def)
  have a: "bucketMs (30 * day) = 3 * hour"
  proof -
    from bucketMs_by_span [of "30 * day"] obtain H where
      H: "2 * max \<lceil>real_of_int (30 * day) / 240\<rceil> hour - hour < 2 * H * hour"
         "2 * H * hour \<le> 2 * max \<lceil>real_of_int (30 * day) / 240\<rceil> hour + hour"
         "H \<le> 24 \<longrightarrow> bucketMs (30 * day) = H * hour"
      by (auto simp: day_def hour_def minute_def)
    have "H = 3" using H(1,2) unfolding c by (simp add: hour_def minute_def)
    with H(3) show ?thesis by simp
  qed
  have b: "bucketMs (356 * day) = 2 * day"
  proof -
    from bucketMs_by_span [of "356 * day"] obtain H where
      H: "2 * max \<lceil>real_of_int (356 * day) / 240\<rceil> hour - hour < 2 * H * hour"
         "2 * H * hour \<le> 2 * max \<lceil>real_of_int (356 * day) / 240\<rceil> hour + hour"
         "24 < H \<longrightarrow> (\<exists>D. 2 * H - 24 < 2 * D * 24 \<and> 2 * D * 24 \<le> 2 * H + 24 \<and>
                               bucketMs (356 * day) = D * day)"
      by (auto simp: day_def hour_def minute_def)
    have "H = 36" using H(1,2) unfolding c by (simp add: hour_def minute_def)
    with H(3) obtain D where D: "2 * 36 - 24 < 2 * D * 24" "2 * D * 24 \<le> 2 * 36 + 24"
      "bucketMs (356 * day) = D * day" by auto
    have "D = 2" using D(1,2) by simp
    with D(3) show ?thesis by simp
  qed
  have s: "bucketMs hour = minute \<and> bucketMs day = 10 * minute \<and> bucketMs (7 * day) = hour \<and>
      bucketMs (10 * day) = hour"
    using bucketMs_by_span [of hour] bucketMs_by_span [of day] bucketMs_by_span [of "7 * day"]
    by (simp add: day_def hour_def minute_def)
  have o: "hour < day \<and> day < 7 * day \<and> 7 * day < 30 * day"
    by (simp add: day_def hour_def minute_def)
  show ?thesis using a b s o by simp
qed

section \<open>Hourly downsampling\<close>

lemma map_of_map_set: "map_of (map_set m k v) = (map_of m)(k \<mapsto> v)"
  by (induction m) (auto simp: fun_eq_iff)

lemma keys_map_set: "set (map fst (map_set m k v)) = insert k (set (map fst m))"
proof (induction m)
  case Nil
  then show ?case by simp
next
  case (Cons e m)
  obtain k' v' where e: "e = (k', v')" by (cases e)
  show ?case
  proof (cases "k' = k")
    case True
    then show ?thesis by (simp add: e)
  next
    case False
    then show ?thesis using Cons.IH by (simp add: e insert_commute)
  qed
qed

lemma distinct_map_set: "distinct (map fst m) \<Longrightarrow> distinct (map fst (map_set m k v))"
proof (induction m)
  case Nil
  then show ?case by simp
next
  case (Cons e m)
  obtain k' v' where e: "e = (k', v')" by (cases e)
  show ?case
  proof (cases "k' = k")
    case True
    with Cons.prems e show ?thesis by simp
  next
    case False
    have "k' \<notin> set (map fst (map_set m k v))"
      using Cons.prems e False by (simp only: keys_map_set) auto
    with Cons e False show ?thesis by simp
  qed
qed

lemma distinct_hourlyMap:
  "distinct (map fst m) \<Longrightarrow> distinct (map fst (hourlyMap toHour m rows))"
  by (induction rows arbitrary: m) (simp_all add: distinct_map_set)

lemma keys_hourlyMap:
  "set (map fst (hourlyMap toHour m rows)) =
     set (map fst m) \<union> (\<lambda>r. toHour (timestamp r)) ` set rows"
  by (induction rows arbitrary: m) (simp_all add: keys_map_set del: set_map)

lemma map_of_hourlyMap:
  "map_of (hourlyMap toHour m rows) =
     map_of m ++ map_of (rev (map (\<lambda>r. (toHour (timestamp r), count r)) rows))"
proof (induction rows arbitrary: m)
  case Nil
  then show ?case by simp
next
  case (Cons r rows)
  show ?case
    by (simp add: Cons.IH map_of_map_set map_add_upd_left fun_eq_iff map_add_def
        split: option.splits)
qed

lemma map_of_rev_last:
  "map_of (rev (map f rows)) h = Some c \<Longrightarrow>
   \<exists>i < length rows. f (rows ! i) = (h, c) \<and> (\<forall>j < length rows. fst (f (rows ! j)) = h \<longrightarrow> j \<le> i)"
proof (induction rows rule: rev_induct)
  case Nil
  then show ?case by simp
next
  case (snoc x xs)
  show ?case
  proof (cases "fst (f x) = h")
    case True
    then have "f x = (h, c)" using snoc.prems by (cases "f x") simp
    then have "f ((xs @ [x]) ! length xs) = (h, c)" by simp
    moreover have "\<forall>j < length (xs @ [x]). fst (f ((xs @ [x]) ! j)) = h \<longrightarrow> j \<le> length xs"
      by simp
    ultimately show ?thesis by (intro exI [of _ "length xs"]) simp
  next
    case False
    then have "map_of (rev (map f xs)) h = Some c" using snoc.prems by (cases "f x") auto
    from snoc.IH [OF this] obtain i where i: "i < length xs" "f (xs ! i) = (h, c)"
      "\<forall>j < length xs. fst (f (xs ! j)) = h \<longrightarrow> j \<le> i" by blast
    have "f ((xs @ [x]) ! i) = (h, c)" using i(1,2) by (simp add: nth_append)
    moreover have "fst (f ((xs @ [x]) ! j)) = h \<longrightarrow> j \<le> i" if "j < length (xs @ [x])" for j
    proof (cases "j < length xs")
      case True
      then show ?thesis using i(3) by (simp add: nth_append)
    next
      case False
      then have "j = length xs" using that by simp
      then show ?thesis using \<open>fst (f x) \<noteq> h\<close> by simp
    qed
    ultimately show ?thesis using i(1) by (intro exI [of _ i]) simp
  qed
qed

lemma utcHour_bounds:
  "utcHour t \<le> t" "t < utcHour t + hour" "utcHour t mod hour = 0"
proof -
  have h: "0 < hour" by (simp add: hour_def minute_def)
  have "t = t div hour * hour + t mod hour" by simp
  moreover have "0 \<le> t mod hour" "t mod hour < hour" using h by simp_all
  ultimately show "utcHour t \<le> t" "t < utcHour t + hour" unfolding utcHour_def by linarith+
  show "utcHour t mod hour = 0" by (simp add: utcHour_def)
qed

text \<open>
  What the loop does, for every hour truncation: the downsampled series is strictly
  ascending in time, its timestamps are exactly the hours of the input rows, and every
  output sample carries the count of the row of its hour that comes last in the sequence
  \<^verbatim>\<open>allRows\<close>. That row is the chronologically last one of its hour when the rows are in
  time order.
\<close>

lemma hourlyData_last_in_sequence:
  "sorted_wrt (<) (map timestamp (hourlyData toHour allRows)) \<and>
   set (map timestamp (hourlyData toHour allRows)) =
     (\<lambda>r. toHour (timestamp r)) ` set allRows \<and>
   (\<forall>s \<in> set (hourlyData toHour allRows).
      \<exists>i < length allRows.
        toHour (timestamp (allRows ! i)) = timestamp s \<and>
        count (allRows ! i) = count s \<and>
        (\<forall>j < length allRows. toHour (timestamp (allRows ! j)) = timestamp s \<longrightarrow>
           j \<le> i \<and>
           (sorted (map timestamp allRows) \<longrightarrow> timestamp (allRows ! j) \<le> timestamp (allRows ! i))))"
proof (intro conjI ballI)
  let ?m = "hourlyMap toHour [] allRows"
  let ?f = "\<lambda>r. (toHour (timestamp r), count r)"
  have ts: "map timestamp (hourlyData toHour allRows) = map fst (sort_key fst ?m)"
    by (simp add: hourlyData_def case_prod_beta comp_def)
  have dist: "distinct (map fst ?m)" by (rule distinct_hourlyMap) simp
  have "sorted (map fst (sort_key fst ?m))" by (rule sorted_sort_key)
  moreover have "distinct (map fst (sort_key fst ?m))" using dist by (simp add: distinct_map)
  ultimately show "sorted_wrt (<) (map timestamp (hourlyData toHour allRows))"
    unfolding ts by (simp only: strict_sorted_iff)
  have "set (map fst (sort_key fst ?m)) = set (map fst ?m)" by simp
  then show "set (map timestamp (hourlyData toHour allRows)) =
     (\<lambda>r. toHour (timestamp r)) ` set allRows"
    unfolding ts by (simp only: keys_hourlyMap) simp
  fix s assume "s \<in> set (hourlyData toHour allRows)"
  then have "(timestamp s, count s) \<in> set ?m" by (auto simp: hourlyData_def)
  then have "map_of ?m (timestamp s) = Some (count s)" using dist by simp
  then have "map_of (rev (map ?f allRows)) (timestamp s) = Some (count s)"
    by (simp add: map_of_hourlyMap)
  from map_of_rev_last [OF this] obtain i where i: "i < length allRows"
    "?f (allRows ! i) = (timestamp s, count s)"
    "\<forall>j < length allRows. fst (?f (allRows ! j)) = timestamp s \<longrightarrow> j \<le> i" by blast
  have "timestamp (allRows ! j) \<le> timestamp (allRows ! i)"
    if "j \<le> i" "sorted (map timestamp allRows)" for j
    using sorted_nth_mono [OF that(2), of j i] that(1) i(1) by simp
  then show "\<exists>i < length allRows.
        toHour (timestamp (allRows ! i)) = timestamp s \<and>
        count (allRows ! i) = count s \<and>
        (\<forall>j < length allRows. toHour (timestamp (allRows ! j)) = timestamp s \<longrightarrow>
           j \<le> i \<and>
           (sorted (map timestamp allRows) \<longrightarrow> timestamp (allRows ! j) \<le> timestamp (allRows ! i)))"
    using i by (intro exI [of _ i]) auto
qed

text \<open>
  Claim C6 (for all rows sharing an hour the chronologically last row's count is kept; one
  sample per distinct hour, ascending) fails of the code on rows that arrive out of time
  order, which the keyset on \<^verbatim>\<open>id\<close> allows: it delivers rows by ascending \<^verbatim>\<open>id\<close>, and
  nothing sorts \<^verbatim>\<open>allRows\<close> by time before the loop of line 114. On the table with row 1
  at 140 s (count 3) and row 2 at 130 s (count 2), both in hour 0, the rows arrive as
  \<open>(140 s, 3), (130 s, 2)\<close> and the loop keeps count 2, although the comment of line 112
  says \<^verbatim>\<open>pick the last (max timestamp) count in each hour\<close>, which is 3; the keyset on
  \<^verbatim>\<open>timestamp\<close> delivers the same table in time order and keeps 3.
\<close>

theorem hourlyData_unordered_rows:
  "fst (fetchAllRows True
          [\<lparr>row_id = 1, row_timestamp = 140000, row_count = Some 3\<rparr>,
           \<lparr>row_id = 2, row_timestamp = 130000, row_count = Some 2\<rparr>]) =
     [\<lparr>timestamp = 140000, count = 3\<rparr>, \<lparr>timestamp = 130000, count = 2\<rparr>] \<and>
   hourlyData utcHour
     (fst (fetchAllRows True
          [\<lparr>row_id = 1, row_timestamp = 140000, row_count = Some 3\<rparr>,
           \<lparr>row_id = 2, row_timestamp = 130000, row_count = Some 2\<rparr>])) =
     [\<lparr>timestamp = 0, count = 2\<rparr>] \<and>
   hourlyData utcHour
     (fst (fetchAllRows False
          [\<lparr>row_id = 1, row_timestamp = 140000, row_count = Some 3\<rparr>,
           \<lparr>row_id = 2, row_timestamp = 130000, row_count = Some 2\<rparr>])) =
     [\<lparr>timestamp = 0, count = 3\<rparr>]"
  by (simp add: fetchAllRows_def selectPage_def keysetLoop.simps PAGE_SIZE_def toRow_def
        hourlyData_def utcHour_def hour_def minute_def)

section \<open>Paging\<close>

lemma filter_after_last:
  fixes key :: "db_row \<Rightarrow> 'k::linorder"
  assumes "sorted_wrt (<) (map key (fetched @ pending))"
  shows "filter (\<lambda>r. case lastKeyOf key fetched of None \<Rightarrow> True | Some k \<Rightarrow> k < key r)
           (fetched @ pending) = pending"
proof (cases "fetched = []")
  case True
  then show ?thesis by (simp add: lastKeyOf_def)
next
  case False
  let ?k = "key (last fetched)"
  have srt: "sorted_wrt (<) (map key fetched)" "sorted_wrt (<) (map key pending)"
    "\<forall>x \<in> set fetched. \<forall>y \<in> set pending. key x < key y"
    using assms by (auto simp: sorted_wrt_append)
  have "\<forall>y \<in> set pending. ?k < key y" using srt(3) False by simp
  then have p: "filter (\<lambda>r. ?k < key r) pending = pending" by (simp add: filter_id_conv)
  have "\<forall>x \<in> set fetched. \<not> ?k < key x"
  proof
    fix x assume x: "x \<in> set fetched"
    obtain ys where f: "fetched = ys @ [last fetched]"
      using False append_butlast_last_id [of fetched] by metis
    then have "sorted_wrt (<) (map key (ys @ [last fetched]))" using srt(1) by simp
    then have "\<forall>y \<in> set ys. key y < ?k" by (simp add: sorted_wrt_append)
    moreover have "x \<in> set ys \<or> x = last fetched" using x f by (metis Un_iff insert_iff list.set(2) set_append empty_iff list.set(1))
    ultimately show "\<not> ?k < key x" by auto
  qed
  then have "filter (\<lambda>r. ?k < key r) fetched = []" by (simp add: filter_empty_conv)
  with p False show ?thesis by (simp add: lastKeyOf_def)
qed

lemma selectPage_pending:
  fixes key :: "db_row \<Rightarrow> 'k::linorder"
  assumes "distinct (map key table)" "sort_key key table = fetched @ pending"
  shows "selectPage key table (lastKeyOf key fetched) = Some (take PAGE_SIZE pending)"
proof -
  let ?P = "\<lambda>r. case lastKeyOf key fetched of None \<Rightarrow> True | Some k \<Rightarrow> k < key r"
  have "sorted (map key (sort_key key table))" by (rule sorted_sort_key)
  moreover have "distinct (map key (sort_key key table))"
    using assms(1) by (simp add: distinct_map)
  ultimately have "sorted_wrt (<) (map key (fetched @ pending))"
    unfolding assms(2) [symmetric] by (simp only: strict_sorted_iff)
  then have "filter ?P (fetched @ pending) = pending" by (rule filter_after_last)
  then have "sort_key key (filter ?P table) = pending"
    using filter_sort [of ?P key table] assms(2) by simp
  then show ?thesis by (simp add: selectPage_def)
qed

lemma pages_arith:
  fixes n :: nat
  assumes "0 < n"
  shows "(n + 999) div 1000 = Suc ((n - 1000 + 999) div 1000)"
proof (cases "n \<le> 1000")
  case True
  have "(n + 999) div 1000 = 1" using True assms by (intro div_nat_eqI) simp_all
  moreover have "n - 1000 = 0" using True by simp
  ultimately show ?thesis by simp
next
  case False
  then obtain m where n: "n = m + 1000" using le_Suc_ex [of 1000 n] by (auto simp: add.commute)
  have "(m + 1000 + 999) div 1000 = (m + 999 + 1000) div 1000" by (simp add: add.commute add.left_commute)
  also have "\<dots> = Suc ((m + 999) div 1000)" by simp
  finally show ?thesis by (simp add: n)
qed

lemma pagesOf_step:
  assumes "pending \<noteq> []"
  shows "pagesOf (length pending) = Suc (pagesOf (length (drop PAGE_SIZE pending)))"
proof -
  have "0 < length pending" using assms by simp
  then show ?thesis by (simp add: pagesOf_def PAGE_SIZE_def pages_arith)
qed

lemma pagesOf_ceiling: "pagesOf n = nat \<lceil>real n / real PAGE_SIZE\<rceil>"
proof -
  define z where "z = (int n + 999) div 1000"
  define r where "r = (int n + 999) mod 1000"
  have dm: "int n + 999 = 1000 * z + r" by (simp add: z_def r_def)
  have r: "0 \<le> r" "r < 1000" by (simp_all add: r_def)
  have up: "int n \<le> 1000 * z" using dm r by linarith
  have lo: "1000 * (z - 1) < int n" using dm r by (simp add: algebra_simps)
  have "\<lceil>real n / 1000\<rceil> = z"
  proof (rule ceiling_unique)
    have "real_of_int (1000 * (z - 1)) < real n" using lo by (metis of_int_less_iff of_int_of_nat_eq)
    then show "real_of_int z - 1 < real n / 1000" by (simp add: less_divide_eq)
    have "real n \<le> real_of_int (1000 * z)" using up by (metis of_int_le_iff of_int_of_nat_eq)
    then show "real n / 1000 \<le> real_of_int z" by (simp add: divide_le_eq)
  qed
  moreover have "pagesOf n = nat z"
    by (simp add: pagesOf_def PAGE_SIZE_def z_def nat_div_distrib nat_add_distrib)
  ultimately show ?thesis by (simp add: PAGE_SIZE_def)
qed

lemma keysetLoop_pages:
  fixes key :: "db_row \<Rightarrow> 'k::linorder"
  assumes "distinct (map key table)"
  shows "sort_key key table = fetched @ pending \<Longrightarrow> pagesOf (length pending) + safety \<le> 100 \<Longrightarrow>
    keysetLoop key (selectPage key table) (lastKeyOf key fetched) safety allRows requests =
      (allRows @ map toRow pending, requests + pagesOf (length pending) + 1)"
proof (induction "length pending" arbitrary: pending fetched safety allRows requests rule: less_induct)
  case less
  note page = selectPage_pending [OF assms less.prems(1)]
  show ?case
  proof (cases "pending = []")
    case True
    then show ?thesis
      by (subst keysetLoop.simps) (simp add: page pagesOf_def PAGE_SIZE_def)
  next
    case False
    let ?batch = "take PAGE_SIZE pending"
    have ne: "?batch \<noteq> []" using False by (simp add: PAGE_SIZE_def)
    have "last (fetched @ ?batch) = last ?batch" using ne by simp
    also have "\<dots> = ?batch ! (length ?batch - 1)" using ne by (rule last_conv_nth)
    finally have lastb: "?batch ! (length ?batch - 1) = last (fetched @ ?batch)" by simp
    have key': "Some (key (?batch ! (length ?batch - 1))) = lastKeyOf key (fetched @ ?batch)"
      using ne by (simp only: lastb lastKeyOf_def) simp
    have split: "sort_key key table = (fetched @ ?batch) @ drop PAGE_SIZE pending"
      using less.prems(1) by simp
    have shorter: "length (drop PAGE_SIZE pending) < length pending"
      using False by (simp add: PAGE_SIZE_def)
    have pg: "pagesOf (length pending) = Suc (pagesOf (length (drop PAGE_SIZE pending)))"
      by (rule pagesOf_step [OF False])
    have cap: "\<not> safety + 1 > 100" using less.prems(2) pg by simp
    have budget: "pagesOf (length (drop PAGE_SIZE pending)) + (safety + 1) \<le> 100"
      using less.prems(2) pg by simp
    have "keysetLoop key (selectPage key table) (lastKeyOf key fetched) safety allRows requests =
      keysetLoop key (selectPage key table) (lastKeyOf key (fetched @ ?batch)) (safety + 1)
        (allRows @ map toRow ?batch) (requests + 1)"
      unfolding key' [symmetric]
      by (subst keysetLoop.simps) (simp only: page option.case ne if_False Let_def cap)
    also have "\<dots> = ((allRows @ map toRow ?batch) @ map toRow (drop PAGE_SIZE pending),
        (requests + 1) + pagesOf (length (drop PAGE_SIZE pending)) + 1)"
      by (rule less.hyps [OF shorter split budget])
    also have "\<dots> = (allRows @ map toRow pending, requests + pagesOf (length pending) + 1)"
      unfolding pg by (simp add: map_append [symmetric] del: map_append)
    finally show ?thesis .
  qed
qed

text \<open>
  Claim C1, as stated, fails: on a table of one row the first page is short (one row,
  below the page size), yet the loop asks for a second page, so two requests are issued
  where \<open>ceil(1 / 1000) = 1\<close> is claimed. The loop has no test for a short page.
\<close>

theorem fetchAllRows_short_page_counterexample:
  "snd (fetchAllRows True [\<lparr>row_id = 1, row_timestamp = 0, row_count = Some 5\<rparr>]) = 2 \<and>
   nat \<lceil>real (length [\<lparr>row_id = 1, row_timestamp = 0, row_count = Some 5\<rparr>]) / real PAGE_SIZE\<rceil> = 1"
proof -
  have "\<lceil>(1::real) / 1000\<rceil> = 1" by (rule ceiling_unique) simp_all
  then show ?thesis
    by (simp add: fetchAllRows_def selectPage_def keysetLoop.simps PAGE_SIZE_def)
qed

text \<open>
  Claim C1, amended. For a table of \<open>N \<le> 100 * 1000\<close> rows with distinct keys, the pager
  issues exactly \<open>ceil(N / 1000) + 1\<close> page requests (the non-empty pages and the empty
  page that ends the loop) and returns exactly the \<open>N\<close> rows, each once, in ascending
  key order; this holds for both keyset strategies.
\<close>

theorem fetchAllRows_pages:
  assumes "length table \<le> 100 * PAGE_SIZE"
    and "distinct (map (if hasId then row_id else row_timestamp) table)"
  shows "\<exists>rows. fetchAllRows hasId table =
           (map toRow rows, nat \<lceil>real (length table) / real PAGE_SIZE\<rceil> + 1) \<and>
         length rows = length table \<and> set rows = set table \<and> distinct rows \<and>
         sorted_wrt (<) (map (if hasId then row_id else row_timestamp) rows)"
proof -
  define key :: "db_row \<Rightarrow> int" where "key = (if hasId then row_id else row_timestamp)"
  define rows where "rows = sort_key key table"
  have d: "distinct (map key table)" using assms(2) by (simp add: key_def)
  have "pagesOf (length table) \<le> 100"
    using assms(1) by (simp add: pagesOf_def PAGE_SIZE_def)
  then have budget: "pagesOf (length rows) + 0 \<le> 100" by (simp add: rows_def)
  have split: "sort_key key table = [] @ rows" by (simp add: rows_def)
  have "keysetLoop key (selectPage key table) (lastKeyOf key []) 0 [] 0 =
      ([] @ map toRow rows, 0 + pagesOf (length rows) + 1)"
    by (rule keysetLoop_pages [OF d split budget])
  then have "keysetLoop key (selectPage key table) None 0 [] 0 =
      (map toRow rows, nat \<lceil>real (length table) / real PAGE_SIZE\<rceil> + 1)"
    by (simp add: lastKeyOf_def pagesOf_ceiling rows_def)
  then have res: "fetchAllRows hasId table =
      (map toRow rows, nat \<lceil>real (length table) / real PAGE_SIZE\<rceil> + 1)"
    by (cases hasId) (simp_all add: fetchAllRows_def key_def)
  have "sorted (map key rows)" unfolding rows_def by (rule sorted_sort_key)
  moreover have dk: "distinct (map key rows)" using d by (simp add: rows_def distinct_map)
  ultimately have "sorted_wrt (<) (map key rows)" by (simp only: strict_sorted_iff)
  moreover have "distinct rows" using dk by (simp add: distinct_map)
  ultimately show ?thesis using res by (intro exI [of _ rows]) (simp add: rows_def key_def)
qed

text \<open>
  An instance of amended C1: a table of two rows, stored out of order.
\<close>

theorem fetchAllRows_pages_witness:
  "length twoRowTable \<le> 100 * PAGE_SIZE \<and> distinct (map row_id twoRowTable) \<and>
   (\<exists>rows. fetchAllRows True twoRowTable =
       (map toRow rows, nat \<lceil>real (length twoRowTable) / real PAGE_SIZE\<rceil> + 1) \<and>
      length rows = 2 \<and> sorted_wrt (<) (map row_id rows))"
proof -
  have h: "length twoRowTable \<le> 100 * PAGE_SIZE"
    "distinct (map (if True then row_id else row_timestamp) twoRowTable)"
    by (simp_all add: twoRowTable_def PAGE_SIZE_def)
  have l: "length twoRowTable = 2" by (simp add: twoRowTable_def)
  from fetchAllRows_pages [OF h] h l show ?thesis by auto
qed

section \<open>Live updater\<close>

lemmas stringToNumber_defs =
  stringToNumber_def trimString_def isStrWhiteSpaceChar_def strNumericLiteral_def
  strDecimalLiteral_def strUnsignedDecimalLiteral_def parseMantissa_def parseExponent_def
  parseDigits_def digitValue_def str_def

lemma stringToNumber_123: "stringToNumber (str ''123'') = Num 123"
  by (simp add: stringToNumber_defs fl_numeral)

lemma stringToNumber_42: "stringToNumber (str ''42'') = Num 42"
  by (simp add: stringToNumber_defs fl_numeral)

lemma stringToNumber_abc: "stringToNumber (str ''abc'') = NaN"
  by (simp add: stringToNumber_defs)

lemma stringToNumber_empty: "stringToNumber [] = Num 0"
  by (simp add: stringToNumber_def trimString_def)

lemma stringToNumber_blank: "stringToNumber (str ''   '') = Num 0"
  by (simp add: stringToNumber_def trimString_def isStrWhiteSpaceChar_def str_def)

lemma stringToNumber_nbsp: "stringToNumber (0xA0 # str ''12'') = Num 12"
  by (simp add: stringToNumber_defs fl_numeral)

lemma stringToNumber_overflow: "stringToNumber (str ''1e400'') = PosInfinity"
proof -
  have "(2::real) ^ 1024 \<le> 10 ^ 400"
  proof -
    have "(2::real) ^ 1024 \<le> 2 ^ 1200" by simp
    also have "\<dots> = (2 ^ 3) ^ 400" by (simp flip: power_mult)
    also have "\<dots> \<le> 10 ^ 400" by (rule power_mono) simp_all
    finally show ?thesis .
  qed
  then have "fl (10 ^ 400) = PosInfinity" by (rule fl_overflow)
  then show ?thesis by (simp add: stringToNumber_defs)
qed

lemma stringToNumber_rounded:
  "stringToNumber (str ''0.1'') = Num (7205759403792794 / 2 ^ 56)"
proof -
  have "fl (1 / 10) = Num (of_int 7205759403792794 * (1 / 2 ^ 56))"
    by (rule fl_pos_eval [where e = "-4"]) (simp_all add: round_even_def)
  then show ?thesis by (simp add: stringToNumber_defs)
qed

lemma onPayload_row:
  assumes "getProp payload ''new'' = Inr new"
    "(if nullish new then getProp payload ''old'' else Inr new) = Inr rec"
    "truthy rec" "getProp rec ''count'' = Inr raw"
  shows "onPayload st payload =
    (case toNumber raw of
       Inl e \<Rightarrow> st
     | Inr newCount \<Rightarrow>
         if isNaN newCount then st
         else st\<lparr>currentCount := newCount, lastUpdated := ''< 1 min ago''\<rparr>)"
  unfolding onPayload_def handlerBody_def
  by (simp only: assms sum.case not_True_eq_False if_False) (simp split: sum.splits)

lemma onPayload_no_row:
  assumes "spec_payloadRow payload = None"
  shows "onPayload st payload = st"
  using assms
  by (cases payload)
     (auto simp: onPayload_def handlerBody_def spec_payloadRow_def nullish_def
           split: option.splits if_splits)

lemma onPayload_spec: 
  "onPayload st payload =
     (case spec_payloadCount payload of
        Some n \<Rightarrow> st\<lparr>currentCount := n, lastUpdated := ''< 1 min ago''\<rparr>
      | None \<Rightarrow> st)"
proof (cases "spec_payloadRow payload")
  case None
  then show ?thesis by (simp add: onPayload_no_row spec_payloadCount_def)
next
  case (Some rec)
  then obtain props where p: "payload = JObject props"
    by (cases payload) (simp_all add: spec_payloadRow_def)
  obtain new where new: "getProp payload ''new'' = Inr new"
    "(if nullish new then getProp payload ''old'' else Inr new) = Inr rec"
    using Some unfolding p spec_payloadRow_def
    by (cases "map_of props ''new''") (auto simp: nullish_def split: if_splits)
  have body: "handlerBody st payload =
     (if \<not> truthy rec then Inr st
      else case getProp rec ''count'' of
             Inl e \<Rightarrow> Inl e
           | Inr raw \<Rightarrow>
               (case toNumber raw of
                  Inl e \<Rightarrow> Inl e
                | Inr newCount \<Rightarrow>
                    if \<not> isNaN newCount
                    then Inr (st\<lparr>currentCount := newCount, lastUpdated := ''< 1 min ago''\<rparr>)
                    else Inr st))"
    unfolding handlerBody_def by (simp only: new sum.case)
  show ?thesis
  proof (cases rec)
    case (JObject row)
    show ?thesis
      by (cases "map_of row ''count''")
         (simp_all add: onPayload_def body JObject spec_payloadCount_def Some isNaN_def
            split: sum.splits)
  qed (simp_all add: onPayload_def body spec_payloadCount_def Some isNaN_def)
qed

lemma onPayload_count:
  assumes "toNumber raw = Inr n" "n \<noteq> NaN"
  shows "onPayload st (JObject [(''new'', JObject [(''count'', raw)])]) =
     st\<lparr>currentCount := n, lastUpdated := ''< 1 min ago''\<rparr>"
  using assms by (simp add: onPayload_spec spec_payloadCount_def spec_payloadRow_def nullish_def)

lemma onPayload_ignored:
  assumes "toNumber raw = Inr NaN \<or> toNumber raw = Inl e"
  shows "onPayload st (JObject [(''new'', JObject [(''count'', raw)])]) = st"
  using assms
  by (auto simp: onPayload_spec spec_payloadCount_def spec_payloadRow_def nullish_def)

text \<open>
  Claim C8. For every payload the handler does what the specification says: it takes the
  count of the new row if present, else of the old row, coerced to a number; when that
  parses (is not \<^verbatim>\<open>NaN\<close>) it sets the displayed count and resets the last-updated
  label, and changes nothing else; otherwise the state is unchanged. A throw inside the
  handler leaves the state unchanged and is not propagated. The payload
  \<^verbatim>\<open>{new:{count:"123"}}\<close> sets the count to 123 and \<^verbatim>\<open>{new:{count:"abc"}}\<close> changes
  nothing. Further, a count of U+00A0 followed by \<^verbatim>\<open>12\<close> sets 12, \<^verbatim>\<open>"1e400"\<close> sets
  \<^verbatim>\<open>Infinity\<close>, \<^verbatim>\<open>"0.1"\<close> sets the double nearest to one tenth, and the array
  \<^verbatim>\<open>[5]\<close> sets 5; the payload \<^verbatim>\<open>null\<close> and a count \<^verbatim>\<open>{toString: null}\<close> make the
  handler body throw a \<^verbatim>\<open>TypeError\<close>, which changes nothing.
\<close>

theorem onPayload_updates_count:
  "onPayload st payload =
     (case spec_payloadCount payload of
        Some n \<Rightarrow> st\<lparr>currentCount := n, lastUpdated := ''< 1 min ago''\<rparr>
      | None \<Rightarrow> st) \<and>
   (\<forall>n. spec_payloadCount payload = Some n \<longrightarrow> n \<noteq> NaN) \<and>
   (\<forall>e. handlerBody st payload = Inl e \<longrightarrow> onPayload st payload = st) \<and>
   data (onPayload st payload) = data st \<and> loading (onPayload st payload) = loading st \<and>
   stats (onPayload st payload) = stats st \<and> timeRange (onPayload st payload) = timeRange st \<and>
   onPayload st (JObject [(''new'', JObject [(''count'', JString (str ''123''))])]) =
     st\<lparr>currentCount := Num 123, lastUpdated := ''< 1 min ago''\<rparr> \<and>
   onPayload st (JObject [(''new'', JObject [(''count'', JString (0xA0 # str ''12''))])]) =
     st\<lparr>currentCount := Num 12, lastUpdated := ''< 1 min ago''\<rparr> \<and>
   onPayload st (JObject [(''new'', JObject [(''count'', JString (str ''1e400''))])]) =
     st\<lparr>currentCount := PosInfinity, lastUpdated := ''< 1 min ago''\<rparr> \<and>
   onPayload st (JObject [(''new'', JObject [(''count'', JString (str ''0.1''))])]) =
     st\<lparr>currentCount := Num (7205759403792794 / 2 ^ 56), lastUpdated := ''< 1 min ago''\<rparr> \<and>
   onPayload st (JObject [(''new'', JObject [(''count'', JArray [JNumber (Num 5)])])]) =
     st\<lparr>currentCount := Num 5, lastUpdated := ''< 1 min ago''\<rparr> \<and>
   onPayload st (JObject [(''new'', JObject [(''count'', JString (str ''abc''))])]) = st \<and>
   handlerBody st JNull = Inl TypeError \<and> onPayload st JNull = st \<and>
   handlerBody st (JObject [(''new'', JObject [(''count'', JObject [(''toString'', JNull)])])]) =
     Inl TypeError \<and>
   onPayload st (JObject [(''new'', JObject [(''count'', JObject [(''toString'', JNull)])])]) = st"
proof -
  note spec = onPayload_spec [of st payload]
  have same: "data (onPayload st payload) = data st" "loading (onPayload st payload) = loading st"
    "stats (onPayload st payload) = stats st" "timeRange (onPayload st payload) = timeRange st"
    unfolding spec by (cases "spec_payloadCount payload"; simp)+
  have nn: "\<forall>n. spec_payloadCount payload = Some n \<longrightarrow> n \<noteq> NaN"
    by (auto simp: spec_payloadCount_def split: option.splits js_value.splits sum.splits if_splits)
  have thrown: "\<forall>e. handlerBody st payload = Inl e \<longrightarrow> onPayload st payload = st"
    by (simp add: onPayload_def)
  have i0: "onPayload st (JObject [(''new'', JObject [(''count'', JString (str ''123''))])]) =
     st\<lparr>currentCount := Num 123, lastUpdated := ''< 1 min ago''\<rparr>"
    by (rule onPayload_count) (simp_all add: stringToNumber_123)
  have i1: "onPayload st (JObject [(''new'', JObject [(''count'', JString (0xA0 # str ''12''))])]) =
     st\<lparr>currentCount := Num 12, lastUpdated := ''< 1 min ago''\<rparr>"
    by (rule onPayload_count) (simp_all add: stringToNumber_nbsp)
  have i2: "onPayload st (JObject [(''new'', JObject [(''count'', JString (str ''1e400''))])]) =
     st\<lparr>currentCount := PosInfinity, lastUpdated := ''< 1 min ago''\<rparr>"
    by (rule onPayload_count) (simp_all add: stringToNumber_overflow)
  have i3: "onPayload st (JObject [(''new'', JObject [(''count'', JString (str ''0.1''))])]) =
     st\<lparr>currentCount := Num (7205759403792794 / 2 ^ 56), lastUpdated := ''< 1 min ago''\<rparr>"
    by (rule onPayload_count) (simp_all add: stringToNumber_rounded)
  have i4: "onPayload st (JObject [(''new'', JObject [(''count'', JArray [JNumber (Num 5)])])]) =
     st\<lparr>currentCount := Num 5, lastUpdated := ''< 1 min ago''\<rparr>"
    by (rule onPayload_count) simp_all
  have b: "onPayload st (JObject [(''new'', JObject [(''count'', JString (str ''abc''))])]) = st"
    by (rule onPayload_ignored [where e = TypeError]) (simp add: stringToNumber_abc)
  have c: "handlerBody st JNull = Inl TypeError" "onPayload st JNull = st"
    by (simp_all add: onPayload_def handlerBody_def)
  have d: "handlerBody st
      (JObject [(''new'', JObject [(''count'', JObject [(''toString'', JNull)])])]) = Inl TypeError"
    by (simp add: handlerBody_def nullish_def)
  have e: "onPayload st
      (JObject [(''new'', JObject [(''count'', JObject [(''toString'', JNull)])])]) = st"
    by (rule onPayload_ignored [where e = TypeError]) simp
  show ?thesis using spec nn thrown same i0 i1 i2 i3 i4 b c d e by blast
qed

text \<open>
  An instance of C8: a delete notification \<^verbatim>\<open>{old:{count:7}}\<close>.
\<close>

theorem onPayload_updates_count_witness:
  "spec_payloadCount (JObject [(''old'', JObject [(''count'', JNumber (Num 7))])]) = Some (Num 7) \<and>
   onPayload \<lparr>data = [], currentCount = Num 5, lastUpdated = ''3 min ago'', loading = False,
              stats = None, timeRange = RangeAll\<rparr>
     (JObject [(''old'', JObject [(''count'', JNumber (Num 7))])]) =
   \<lparr>data = [], currentCount = Num 7, lastUpdated = ''< 1 min ago'', loading = False,
    stats = None, timeRange = RangeAll\<rparr>"
  using onPayload_updates_count
    [of "\<lparr>data = [], currentCount = Num 5, lastUpdated = ''3 min ago'', loading = False,
              stats = None, timeRange = RangeAll\<rparr>"
        "JObject [(''old'', JObject [(''count'', JNumber (Num 7))])]"]
  by (simp add: spec_payloadCount_def spec_payloadRow_def)

text \<open>
  Claim C10. Once the payload carries a row (a truthy \<^verbatim>\<open>rec\<close>),
  \<^verbatim>\<open>isNaN(Number(count))\<close> is the only gate: the count is displayed exactly when its
  coercion returns a number that is not \<^verbatim>\<open>NaN\<close>, and every count that coerces to such a
  number is accepted. The empty string coerces to 0, so \<^verbatim>\<open>{new:{count:""}}\<close> sets the
  displayed count to 0; so do a string of blanks, \<^verbatim>\<open>null\<close> and the empty array;
  \<^verbatim>\<open>true\<close> sets 1, U+00A0 followed by \<^verbatim>\<open>12\<close> sets 12, \<^verbatim>\<open>"1e400"\<close> sets
  \<^verbatim>\<open>Infinity\<close> and \<^verbatim>\<open>[5]\<close> sets 5.
\<close>

theorem onPayload_gate:
  "(getProp payload ''new'' = Inr new \<and>
    (if nullish new then getProp payload ''old'' else Inr new) = Inr rec \<and>
    truthy rec \<and> getProp rec ''count'' = Inr raw \<longrightarrow>
      onPayload st payload =
        (case toNumber raw of
           Inl e \<Rightarrow> st
         | Inr newCount \<Rightarrow>
             if isNaN newCount then st
             else st\<lparr>currentCount := newCount, lastUpdated := ''< 1 min ago''\<rparr>)) \<and>
   (toNumber raw = Inr n \<and> \<not> isNaN n \<longrightarrow>
      onPayload st (JObject [(''new'', JObject [(''count'', raw)])]) =
        st\<lparr>currentCount := n, lastUpdated := ''< 1 min ago''\<rparr>) \<and>
   toNumber (JString []) = Inr (Num 0) \<and> \<not> isNaN (Num 0) \<and>
   onPayload st (JObject [(''new'', JObject [(''count'', JString [])])]) =
     st\<lparr>currentCount := Num 0, lastUpdated := ''< 1 min ago''\<rparr> \<and>
   onPayload st (JObject [(''new'', JObject [(''count'', JString (str ''   ''))])]) =
     st\<lparr>currentCount := Num 0, lastUpdated := ''< 1 min ago''\<rparr> \<and>
   onPayload st (JObject [(''new'', JObject [(''count'', JNull)])]) =
     st\<lparr>currentCount := Num 0, lastUpdated := ''< 1 min ago''\<rparr> \<and>
   onPayload st (JObject [(''new'', JObject [(''count'', JArray [])])]) =
     st\<lparr>currentCount := Num 0, lastUpdated := ''< 1 min ago''\<rparr> \<and>
   onPayload st (JObject [(''new'', JObject [(''count'', JBoolean True)])]) =
     st\<lparr>currentCount := Num 1, lastUpdated := ''< 1 min ago''\<rparr> \<and>
   onPayload st (JObject [(''new'', JObject [(''count'', JString (0xA0 # str ''12''))])]) =
     st\<lparr>currentCount := Num 12, lastUpdated := ''< 1 min ago''\<rparr> \<and>
   onPayload st (JObject [(''new'', JObject [(''count'', JString (str ''1e400''))])]) =
     st\<lparr>currentCount := PosInfinity, lastUpdated := ''< 1 min ago''\<rparr> \<and>
   onPayload st (JObject [(''new'', JObject [(''count'', JArray [JNumber (Num 5)])])]) =
     st\<lparr>currentCount := Num 5, lastUpdated := ''< 1 min ago''\<rparr>"
proof -
  have row: "onPayload st payload =
        (case toNumber raw of
           Inl e \<Rightarrow> st
         | Inr newCount \<Rightarrow>
             if isNaN newCount then st
             else st\<lparr>currentCount := newCount, lastUpdated := ''< 1 min ago''\<rparr>)"
    if "getProp payload ''new'' = Inr new \<and>
        (if nullish new then getProp payload ''old'' else Inr new) = Inr rec \<and>
        truthy rec \<and> getProp rec ''count'' = Inr raw"
    using that onPayload_row [of payload new rec raw st] by blast
  have acc: "onPayload st (JObject [(''new'', JObject [(''count'', raw)])]) =
        st\<lparr>currentCount := n, lastUpdated := ''< 1 min ago''\<rparr>"
    if "toNumber raw = Inr n \<and> \<not> isNaN n"
    using that by (intro onPayload_count) (simp_all add: isNaN_def)
  have z: "toNumber (JString []) = Inr (Num 0)" "\<not> isNaN (Num 0)"
    by (simp_all add: stringToNumber_empty isNaN_def)
  have g0: "onPayload st (JObject [(''new'', JObject [(''count'', JString [])])]) =
     st\<lparr>currentCount := Num 0, lastUpdated := ''< 1 min ago''\<rparr>"
    by (rule onPayload_count) (simp_all add: stringToNumber_empty)
  have g1: "onPayload st (JObject [(''new'', JObject [(''count'', JString (str ''   ''))])]) =
     st\<lparr>currentCount := Num 0, lastUpdated := ''< 1 min ago''\<rparr>"
    by (rule onPayload_count) (simp_all add: stringToNumber_blank)
  have g2: "onPayload st (JObject [(''new'', JObject [(''count'', JNull)])]) =
     st\<lparr>currentCount := Num 0, lastUpdated := ''< 1 min ago''\<rparr>"
    by (rule onPayload_count) simp_all
  have g3: "onPayload st (JObject [(''new'', JObject [(''count'', JArray [])])]) =
     st\<lparr>currentCount := Num 0, lastUpdated := ''< 1 min ago''\<rparr>"
    by (rule onPayload_count) simp_all
  have g4: "onPayload st (JObject [(''new'', JObject [(''count'', JBoolean True)])]) =
     st\<lparr>currentCount := Num 1, lastUpdated := ''< 1 min ago''\<rparr>"
    by (rule onPayload_count) simp_all
  have g5: "onPayload st (JObject [(''new'', JObject [(''count'', JString (0xA0 # str ''12''))])]) =
     st\<lparr>currentCount := Num 12, lastUpdated := ''< 1 min ago''\<rparr>"
    by (rule onPayload_count) (simp_all add: stringToNumber_nbsp)
  have g6: "onPayload st (JObject [(''new'', JObject [(''count'', JString (str ''1e400''))])]) =
     st\<lparr>currentCount := PosInfinity, lastUpdated := ''< 1 min ago''\<rparr>"
    by (rule onPayload_count) (simp_all add: stringToNumber_overflow)
  have g7: "onPayload st (JObject [(''new'', JObject [(''count'', JArray [JNumber (Num 5)])])]) =
     st\<lparr>currentCount := Num 5, lastUpdated := ''< 1 min ago''\<rparr>"
    by (rule onPayload_count) simp_all
  show ?thesis using row acc z g0 g1 g2 g3 g4 g5 g6 g7 by blast
qed

text \<open>
  An instance of C10: the payload \<^verbatim>\<open>{new:{count:"42"}}\<close>.
\<close>

theorem onPayload_gate_witness:
  "getProp (JObject [(''new'', JObject [(''count'', JString (str ''42''))])]) ''new'' =
     Inr (JObject [(''count'', JString (str ''42''))]) \<and>
   truthy (JObject [(''count'', JString (str ''42''))]) \<and>
   getProp (JObject [(''count'', JString (str ''42''))]) ''count'' = Inr (JString (str ''42'')) \<and>
   toNumber (JString (str ''42'')) = Inr (Num 42) \<and> \<not> isNaN (Num 42) \<and>
   onPayload \<lparr>data = [], currentCount = Num 5, lastUpdated = ''3 min ago'', loading = False,
              stats = None, timeRange = RangeAll\<rparr>
     (JObject [(''new'', JObject [(''count'', JString (str ''42''))])]) =
   \<lparr>data = [], currentCount = Num 42, lastUpdated = ''< 1 min ago'', loading = False,
    stats = None, timeRange = RangeAll\<rparr>"
  using onPayload_gate
      [of "JObject [(''new'', JObject [(''count'', JString (str ''42''))])]"
          "JObject [(''count'', JString (str ''42''))]" "JObject [(''count'', JString (str ''42''))]"
          "JString (str ''42'')"
          "\<lparr>data = [], currentCount = Num 5, lastUpdated = ''3 min ago'', loading = False,
              stats = None, timeRange = RangeAll\<rparr>" "Num 42"]
  by (simp add: nullish_def stringToNumber_42 isNaN_def)

end
